theory Spec2Isabelle
  imports Main "HOL-Library.AList"
begin

section \<open>Strings and the job marker (syntxService.ts, lines 69-77)\<close>

text \<open>
  A TypeScript string is a sequence of UTF-16 code units; a code unit is modelled by its
  number. \<open>ascii\<close> writes a literal of the source as code units.
\<close>

type_synonym jsstring = "nat list"

definition ascii :: "string \<Rightarrow> jsstring" where
  "ascii s = map of_char s"

text \<open>
  The characters matched by \<open>\s\<close> in a regular expression and removed by
  \<open>String.prototype.trim\<close>: WhiteSpace and LineTerminator of ECMAScript (TAB, LF, VT, FF,
  CR, SP, NBSP, U+1680, U+2000..U+200A, U+2028, U+2029, U+202F, U+205F, U+3000, U+FEFF).
\<close>

definition isWhiteSpace :: "nat \<Rightarrow> bool" where
  "isWhiteSpace c =
     (c = 9 \<or> c = 10 \<or> c = 11 \<or> c = 12 \<or> c = 13 \<or> c = 32 \<or> c = 160 \<or> c = 5760 \<or>
      (8192 \<le> c \<and> c \<le> 8202) \<or> c = 8232 \<or> c = 8233 \<or> c = 8239 \<or> c = 8287 \<or>
      c = 12288 \<or> c = 65279)"

definition trim :: "jsstring \<Rightarrow> jsstring" where
  "trim s = rev (dropWhile isWhiteSpace (rev (dropWhile isWhiteSpace s)))"

text \<open>The literal \<open>[JOB_ID:\<close> that opens a marker, and the bracket that closes it.\<close>

definition markerOpen :: jsstring where
  "markerOpen = ascii ''[JOB_ID:''"

definition closeBracket :: nat where
  "closeBracket = 93"

text \<open>
  \<open>addJobIdToPrompt\<close>: the prompt, two line feeds, and the marker
  \<open>[JOB_ID: <jobId>]\<close>.
\<close>

definition addJobIdToPrompt :: "jsstring \<Rightarrow> jsstring \<Rightarrow> jsstring" where
  "addJobIdToPrompt prompt jobId =
     (let marker = markerOpen @ [32] @ jobId @ [closeBracket]
      in prompt @ [10, 10] @ marker)"

text \<open>
  The regular expression \<open>/\[JOB_ID:\s*([^\]]+)\]/\<close>, as a backtracking matcher.
  \<open>tryGroup r m\<close> is the group \<open>([^\]]+)\<close> followed by the closing bracket, on the
  text \<open>r\<close>: the group is greedy, so its lengths are tried from \<open>m\<close> (the longest run
  without a closing bracket) down to 1, and a length succeeds when a closing bracket
  follows.
\<close>

fun tryGroup :: "jsstring \<Rightarrow> nat \<Rightarrow> jsstring option" where
  "tryGroup r 0 = None"
| "tryGroup r (Suc m) =
     (case drop (Suc m) r of
        [] \<Rightarrow> tryGroup r m
      | c # _ \<Rightarrow> if c = closeBracket then Some (take (Suc m) r) else tryGroup r m)"

definition groupAt :: "jsstring \<Rightarrow> jsstring option" where
  "groupAt r = tryGroup r (length (takeWhile (\<lambda>c. c \<noteq> closeBracket) r))"

text \<open>
  \<open>trySpaces rest k\<close> is \<open>\s*\<close> having consumed \<open>k\<close> code units of \<open>rest\<close>,
  followed by the group: greedy as well, so \<open>k\<close> starts at the length of the leading
  white space and backtracks down to 0.
\<close>

fun trySpaces :: "jsstring \<Rightarrow> nat \<Rightarrow> jsstring option" where
  "trySpaces rest 0 = groupAt rest"
| "trySpaces rest (Suc k) =
     (case groupAt (drop (Suc k) rest) of
        Some g \<Rightarrow> Some g
      | None \<Rightarrow> trySpaces rest k)"

definition matchAt :: "jsstring \<Rightarrow> jsstring option" where
  "matchAt t =
     (if take (length markerOpen) t = markerOpen
      then (let rest = drop (length markerOpen) t
            in trySpaces rest (length (takeWhile isWhiteSpace rest)))
      else None)"

text \<open>\<open>text.match(re)\<close>: the capture group of the leftmost match, if any.\<close>

fun regexMatch :: "jsstring \<Rightarrow> jsstring option" where
  "regexMatch [] = matchAt []"
| "regexMatch (c # cs) =
     (case matchAt (c # cs) of
        Some g \<Rightarrow> Some g
      | None \<Rightarrow> regexMatch cs)"

definition extractJobIdFromText :: "jsstring \<Rightarrow> jsstring option" where
  "extractJobIdFromText t = map_option trim (regexMatch t)"

text \<open>
  Some occurrence of the marker's opening in the text has no closing bracket after it.
\<close>

fun unterminatedOpen :: "jsstring \<Rightarrow> bool" where
  "unterminatedOpen [] = False"
| "unterminatedOpen (c # cs) =
     ((take (length markerOpen) (c # cs) = markerOpen \<and>
       closeBracket \<notin> set (drop (length markerOpen) (c # cs))) \<or> unterminatedOpen cs)"

section \<open>Inbound messages and candidates (lines 50-55, 79-104, 317-351)\<close>

text \<open>The two values of \<open>MatchingMethod\<close> the service uses: "jobId" and "timestamp".\<close>

datatype MatchingMethod = JobIdMethod | TimestampMethod

text \<open>
  What the service reads of a channel message: its id, its body (\<open>message.message\<close>, when
  it is a string), its media with the caption and the document's attributes, and its date
  (a number of seconds, a Date object with its milliseconds, or anything else).
\<close>

datatype DocumentAttribute = DocumentAttributeVideo | DocumentAttributeOther

datatype TypeDocument = Document "DocumentAttribute list" | DocumentEmpty

datatype Caption = CaptionString jsstring | CaptionObject "jsstring option" | CaptionAbsent

datatype MessageMedia =
    MessageMediaDocument TypeDocument Caption
  | MessageMediaOther Caption

datatype RawDate = DateNumber int | DateObject int | DateOther

record ApiMessage =
  msgId :: int
  messageText :: "jsstring option"
  media :: "MessageMedia option"
  date :: RawDate

record VideoMessageInfo =
  message :: ApiMessage
  fullText :: jsstring
  jobIdMark :: "jsstring option"
  dateMs :: int

fun joinSpace :: "jsstring list \<Rightarrow> jsstring" where
  "joinSpace [] = []"
| "joinSpace [p] = p"
| "joinSpace (p # q # ps) = p @ [32] @ joinSpace (q # ps)"

definition mediaCaption :: "ApiMessage \<Rightarrow> Caption" where
  "mediaCaption m =
     (case media m of
        None \<Rightarrow> CaptionAbsent
      | Some (MessageMediaDocument d c) \<Rightarrow> c
      | Some (MessageMediaOther c) \<Rightarrow> c)"

definition getMessageFullText :: "ApiMessage \<Rightarrow> jsstring" where
  "getMessageFullText m =
     (let parts1 = (case messageText m of Some t \<Rightarrow> [t] | None \<Rightarrow> []);
          parts2 = (case mediaCaption m of
                      CaptionString c \<Rightarrow> [c]
                    | CaptionObject (Some t) \<Rightarrow> [t]
                    | CaptionObject None \<Rightarrow> [[]]
                    | CaptionAbsent \<Rightarrow> [])
      in trim (joinSpace (parts1 @ parts2)))"

definition isVideoMessage :: "ApiMessage \<Rightarrow> bool" where
  "isVideoMessage m =
     (case media m of
        None \<Rightarrow> False
      | Some (MessageMediaDocument (Document attrs) c) \<Rightarrow> DocumentAttributeVideo \<in> set attrs
      | Some (MessageMediaDocument DocumentEmpty c) \<Rightarrow> False
      | Some (MessageMediaOther c) \<Rightarrow> False)"

text \<open>
  \<open>filterVideoMessages\<close>; \<open>now\<close> is the clock reading used for a message whose date is
  neither a number nor a Date.
\<close>

definition messageInfo :: "int \<Rightarrow> ApiMessage \<Rightarrow> VideoMessageInfo" where
  "messageInfo now m =
     (let t = getMessageFullText m
      in \<lparr> message = m, fullText = t, jobIdMark = extractJobIdFromText t,
           dateMs = (case date m of
                       DateNumber n \<Rightarrow> n * 1000
                     | DateObject ms \<Rightarrow> ms
                     | DateOther \<Rightarrow> now) \<rparr>)"

fun filterVideoMessages :: "int \<Rightarrow> ApiMessage list \<Rightarrow> VideoMessageInfo list" where
  "filterVideoMessages now [] = []"
| "filterVideoMessages now (m # ms) =
     (if isVideoMessage m then messageInfo now m # filterVideoMessages now ms
      else filterVideoMessages now ms)"

text \<open>
  \<open>!info.jobIdMark\<close> is true for \<open>null\<close> and for the empty string; \<open>hasMark\<close> is its
  negation.
\<close>

definition hasMark :: "jsstring option \<Rightarrow> bool" where
  "hasMark mk = (case mk of None \<Rightarrow> False | Some j \<Rightarrow> j \<noteq> [])"

section \<open>The poller's state (lines 26-63)\<close>

text \<open>
  A pending job. The pair of callbacks \<open>resolve\<close>, \<open>reject\<close> belongs to one promise;
  \<open>future\<close> is the number of that promise (promises are numbered as they are created).
\<close>

record PendingJobInfo =
  jobId :: jsstring
  requestMessageId :: int
  jobCreatedAt :: int
  sentAt :: int
  deadline :: int
  pollCount :: int
  future :: nat

text \<open>A call of \<open>resolve\<close> (message, matching method, totalMessagesScanned) or of \<open>reject\<close>
  (the timeout error of the job id).\<close>

datatype Settlement = Resolved ApiMessage MatchingMethod nat | Rejected jsstring

datatype error = ClientNotInitialised | FetchFailed | ReserveFailed | ListReservedFailed

text \<open>
  The constants read from the environment are parameters; \<open>defaultConfig\<close> holds the
  values used when the variables are unset.
\<close>

record config =
  FALLBACK_POLLS_THRESHOLD :: int
  FALLBACK_WINDOW_MS :: int

definition defaultConfig :: config where
  "defaultConfig = \<lparr> FALLBACK_POLLS_THRESHOLD = 3, FALLBACK_WINDOW_MS = 2 * 60 * 1000 \<rparr>"

definition DEFAULT_TIMEOUT_MS :: int where
  "DEFAULT_TIMEOUT_MS = 30 * 60 * 1000"

text \<open>
  The module's variables, and what it acts on: \<open>pendingJobs\<close> is a Map (insertion order,
  one entry per key), \<open>currentClient\<close> says that client and chat are set, \<open>store\<close> is
  the external reservation store, \<open>claims\<close> lists the calls of
  \<open>reserveSyntaxMessageId\<close> with their arguments, \<open>settled\<close> lists the calls of
  \<open>resolve\<close> and \<open>reject\<close> with the promise each belongs to, \<open>promises\<close> counts
  the promises created and \<open>loopInstances\<close> the invocations of \<open>pollLoop\<close> that have
  not ended.
\<close>

record 'e poller =
  pendingJobs :: "(jsstring \<times> PendingJobInfo) list"
  reservedMessageIds :: "int set"
  currentClient :: bool
  pollerRunning :: bool
  assignmentsCacheLoaded :: bool
  totalMessagesScanned :: nat
  store :: 'e
  claims :: "(int \<times> jsstring \<times> MatchingMethod) list"
  settled :: "(nat \<times> Settlement) list"
  promises :: nat
  loopInstances :: nat

definition initial :: "'e \<Rightarrow> 'e poller" where
  "initial e =
     \<lparr> pendingJobs = [], reservedMessageIds = {}, currentClient = False,
       pollerRunning = False, assignmentsCacheLoaded = False, totalMessagesScanned = 0,
       store = e, claims = [], settled = [], promises = 0, loopInstances = 0 \<rparr>"

text \<open>
  \<open>reserveSyntaxMessageId\<close> and \<open>getAllReservedSyntaxMessageIds\<close> live outside this
  file: the first is a parameter (it reads and writes the store, answers true or false, or
  throws), the answer of the second is an input of the registration.
\<close>

type_synonym 'e reserveFn = "'e \<Rightarrow> int \<Rightarrow> jsstring \<Rightarrow> MatchingMethod \<Rightarrow> (error + bool) \<times> 'e"

section \<open>Assignment (lines 431-465)\<close>

definition attemptAssignment ::
  "'e reserveFn \<Rightarrow> 'e poller \<Rightarrow> PendingJobInfo \<Rightarrow> VideoMessageInfo \<Rightarrow> MatchingMethod
     \<Rightarrow> error option \<times> 'e poller" where
  "attemptAssignment reserve s job info meth =
     (let messageId = msgId (message info) in
      if messageId \<in> reservedMessageIds s then (None, s)
      else
        (case reserve (store s) messageId (jobId job) meth of
           (Inl e, st) \<Rightarrow>
             (Some e, s\<lparr>store := st,
                        claims := claims s @ [(messageId, jobId job, meth)]\<rparr>)
         | (Inr False, st) \<Rightarrow>
             (None, s\<lparr>store := st,
                      claims := claims s @ [(messageId, jobId job, meth)],
                      reservedMessageIds := insert messageId (reservedMessageIds s)\<rparr>)
         | (Inr True, st) \<Rightarrow>
             (None, s\<lparr>store := st,
                      claims := claims s @ [(messageId, jobId job, meth)],
                      reservedMessageIds := insert messageId (reservedMessageIds s),
                      pendingJobs := AList.delete (jobId job) (pendingJobs s),
                      settled := settled s @
                        [(future job,
                          Resolved (message info) meth (totalMessagesScanned s))]\<rparr>)))"

section \<open>Phase A: marker match (lines 353-371)\<close>

fun matchMessagesByJobId ::
  "'e reserveFn \<Rightarrow> 'e poller \<Rightarrow> VideoMessageInfo list \<Rightarrow> error option \<times> 'e poller" where
  "matchMessagesByJobId reserve s [] = (None, s)"
| "matchMessagesByJobId reserve s (info # rest) =
     (if \<not> hasMark (jobIdMark info) then matchMessagesByJobId reserve s rest
      else
        (case map_of (pendingJobs s) (the (jobIdMark info)) of
           None \<Rightarrow> matchMessagesByJobId reserve s rest
         | Some pending \<Rightarrow>
             (case attemptAssignment reserve s pending info JobIdMethod of
                (Some e, s') \<Rightarrow> (Some e, s')
              | (None, s') \<Rightarrow> matchMessagesByJobId reserve s' rest)))"

section \<open>Phase B: fallback match (lines 373-429)\<close>

text \<open>
  Every pending job's counter is incremented in place, then compared with the threshold;
  the ready list holds the jobs as they stand in the registry after the increment.
\<close>

definition collectFallbackReadyJobs ::
  "config \<Rightarrow> 'e poller \<Rightarrow> PendingJobInfo list \<times> 'e poller" where
  "collectFallbackReadyJobs cfg s =
     (let jobs = map (\<lambda>(k, job). (k, job\<lparr>pollCount := pollCount job + 1\<rparr>)) (pendingJobs s)
      in (filter (\<lambda>job. pollCount job \<ge> FALLBACK_POLLS_THRESHOLD cfg) (map snd jobs),
          s\<lparr>pendingJobs := jobs\<rparr>))"

text \<open>\<open>job.sentAt || job.jobCreatedAt\<close>: the first operand unless it is 0.\<close>

definition targetTimestamp :: "PendingJobInfo \<Rightarrow> int" where
  "targetTimestamp job = (if sentAt job \<noteq> 0 then sentAt job else jobCreatedAt job)"

text \<open>
  The inner loop (lines 405-414). The last argument is the pair \<open>selected\<close>,
  \<open>bestDiff\<close>; \<open>None\<close> is the start, where \<open>selected\<close> is null and \<open>bestDiff\<close>
  is Infinity.
\<close>

fun selectCandidate ::
  "int \<Rightarrow> int set \<Rightarrow> int \<Rightarrow> VideoMessageInfo list \<Rightarrow> (VideoMessageInfo \<times> int) option
     \<Rightarrow> (VideoMessageInfo \<times> int) option" where
  "selectCandidate window reserved target [] best = best"
| "selectCandidate window reserved target (candidate # rest) best =
     (if msgId (message candidate) \<in> reserved
      then selectCandidate window reserved target rest best
      else
        (let diff = \<bar>dateMs candidate - target\<bar> in
         if diff \<le> window \<and> (case best of None \<Rightarrow> True | Some (sel, bestDiff) \<Rightarrow> diff < bestDiff)
         then selectCandidate window reserved target rest (Some (candidate, diff))
         else selectCandidate window reserved target rest best))"

text \<open>The loop over the fallback jobs (lines 400-428), with the shrinking pool.\<close>

fun fallbackLoop ::
  "'e reserveFn \<Rightarrow> config \<Rightarrow> 'e poller \<Rightarrow> VideoMessageInfo list \<Rightarrow> PendingJobInfo list
     \<Rightarrow> error option \<times> 'e poller" where
  "fallbackLoop reserve cfg s candidates [] = (None, s)"
| "fallbackLoop reserve cfg s candidates (job # jobs) =
     (case selectCandidate (FALLBACK_WINDOW_MS cfg) (reservedMessageIds s)
             (targetTimestamp job) candidates None of
        None \<Rightarrow> fallbackLoop reserve cfg s candidates jobs
      | Some (selected, bestDiff) \<Rightarrow>
          (case attemptAssignment reserve s job selected TimestampMethod of
             (Some e, s') \<Rightarrow> (Some e, s')
           | (None, s') \<Rightarrow> fallbackLoop reserve cfg s' (remove1 selected candidates) jobs))"

definition processFallbackMatches ::
  "'e reserveFn \<Rightarrow> config \<Rightarrow> 'e poller \<Rightarrow> VideoMessageInfo list \<Rightarrow> PendingJobInfo list
     \<Rightarrow> error option \<times> 'e poller" where
  "processFallbackMatches reserve cfg s videoMessages fallbackJobs =
     (if fallbackJobs = [] then (None, s)
      else
        (let candidates = filter (\<lambda>info. \<not> hasMark (jobIdMark info)) videoMessages in
         if candidates = [] then (None, s)
         else fallbackLoop reserve cfg s candidates fallbackJobs))"

section \<open>Timeout sweep (lines 467-479)\<close>

text \<open>
  \<open>forEach\<close> visits the entries of the Map in insertion order; the callback deletes the
  entry it is visiting only, so the entries visited are those present at the start.
\<close>

fun timeoutLoop :: "int \<Rightarrow> 'e poller \<Rightarrow> PendingJobInfo list \<Rightarrow> 'e poller" where
  "timeoutLoop now s [] = s"
| "timeoutLoop now s (job # jobs) =
     (if now > deadline job
      then timeoutLoop now
             (s\<lparr>pendingJobs := AList.delete (jobId job) (pendingJobs s),
                settled := settled s @ [(future job, Rejected (jobId job))]\<rparr>) jobs
      else timeoutLoop now s jobs)"

definition checkPendingTimeouts :: "int \<Rightarrow> 'e poller \<Rightarrow> 'e poller" where
  "checkPendingTimeouts now s = timeoutLoop now s (map snd (pendingJobs s))"

section \<open>One poll cycle (lines 292-315)\<close>

text \<open>
  What a cycle reads from outside: the answer of \<open>getMessages\<close> (a batch, or an
  exception), the clock while the batch is scanned and the clock at the timeout sweep.
\<close>

record cycleInput =
  fetched :: "error + ApiMessage list"
  scanClock :: int
  sweepClock :: int

definition pollOnce ::
  "'e reserveFn \<Rightarrow> config \<Rightarrow> 'e poller \<Rightarrow> cycleInput \<Rightarrow> error option \<times> 'e poller" where
  "pollOnce reserve cfg s inp =
     (if \<not> currentClient s then (None, s)
      else
        (case fetched inp of
           Inl e \<Rightarrow> (Some e, s)
         | Inr messages \<Rightarrow>
             (let s1 = s\<lparr>totalMessagesScanned := totalMessagesScanned s + length messages\<rparr>;
                  videoMessages = filterVideoMessages (scanClock inp) messages
              in case matchMessagesByJobId reserve s1 videoMessages of
                   (Some e, s2) \<Rightarrow> (Some e, s2)
                 | (None, s2) \<Rightarrow>
                     (case collectFallbackReadyJobs cfg s2 of
                        (fallbackReadyJobs, s3) \<Rightarrow>
                          (case processFallbackMatches reserve cfg s3 videoMessages
                                  fallbackReadyJobs of
                             (Some e, s4) \<Rightarrow> (Some e, s4)
                           | (None, s4) \<Rightarrow> (None, checkPendingTimeouts (sweepClock inp) s4))))))"

section \<open>Registration and the loop (lines 116-123, 143-144, 232-290)\<close>

definition ensureAssignmentsCache ::
  "'e poller \<Rightarrow> error + int list \<Rightarrow> error option \<times> 'e poller" where
  "ensureAssignmentsCache s listed =
     (if assignmentsCacheLoaded s then (None, s)
      else
        (case listed of
           Inl e \<Rightarrow> (Some e, s)
         | Inr ids \<Rightarrow>
             (None, s\<lparr>reservedMessageIds := reservedMessageIds s \<union> set ids,
                      assignmentsCacheLoaded := True\<rparr>)))"

definition ensurePolling :: "'e poller \<Rightarrow> 'e poller" where
  "ensurePolling s =
     (if pollerRunning s then s
      else s\<lparr>pollerRunning := True, loopInstances := loopInstances s + 1\<rparr>)"

text \<open>
  The job as \<open>sendPromptToSyntx\<close> hands it over, with the clock at registration and the
  answer of \<open>getAllReservedSyntaxMessageIds\<close>.
\<close>

record registration =
  regJobId :: jsstring
  regRequestMessageId :: int
  regJobCreatedAt :: int
  regSentAt :: int
  regClock :: int
  regListed :: "error + int list"

definition waitForVideoViaPoller ::
  "'e poller \<Rightarrow> registration \<Rightarrow> error option \<times> 'e poller" where
  "waitForVideoViaPoller s r =
     (if \<not> currentClient s then (Some ClientNotInitialised, s)
      else
        (case ensureAssignmentsCache s (regListed r) of
           (Some e, s1) \<Rightarrow> (Some e, s1)
         | (None, s1) \<Rightarrow>
             (let pendingJob =
                    \<lparr> jobId = regJobId r, requestMessageId = regRequestMessageId r,
                      jobCreatedAt = regJobCreatedAt r, sentAt = regSentAt r,
                      deadline = regClock r + DEFAULT_TIMEOUT_MS, pollCount = 0,
                      future = promises s1 \<rparr>;
                  s2 = s1\<lparr>promises := promises s1 + 1,
                          pendingJobs := AList.update (regJobId r) pendingJob (pendingJobs s1)\<rparr>
              in (None, ensurePolling s2))))"

text \<open>Lines 143-144 of \<open>sendPromptToSyntx\<close>: client and chat are set.\<close>

definition setCurrentClient :: "'e poller \<Rightarrow> 'e poller" where
  "setCurrentClient s = s\<lparr>currentClient := True\<rparr>"

text \<open>
  One turn of the \<open>while\<close> of \<open>pollLoop\<close>: with a pending job, \<open>pollOnce\<close> with its
  exception caught; with none, the loop ends and clears the flag.
\<close>

definition pollLoopTurn :: "'e reserveFn \<Rightarrow> config \<Rightarrow> 'e poller \<Rightarrow> cycleInput \<Rightarrow> 'e poller" where
  "pollLoopTurn reserve cfg s inp =
     (if pendingJobs s \<noteq> [] then snd (pollOnce reserve cfg s inp)
      else s\<lparr>pollerRunning := False, loopInstances := loopInstances s - 1\<rparr>)"

text \<open>
  \<open>pollLoop\<close> rejecting: the handler of line 275 logs the error, and the invocation is
  over.
\<close>

definition pollLoopFatal :: "'e poller \<Rightarrow> 'e poller" where
  "pollLoopFatal s = s\<lparr>loopInstances := loopInstances s - 1\<rparr>"

text \<open>What happens in the process, one event at a time.\<close>

datatype event =
    Connect
  | Register registration
  | LoopTurn cycleInput
  | LoopFatal

definition step :: "'e reserveFn \<Rightarrow> config \<Rightarrow> 'e poller \<Rightarrow> event \<Rightarrow> 'e poller" where
  "step reserve cfg s ev =
     (case ev of
        Connect \<Rightarrow> setCurrentClient s
      | Register r \<Rightarrow> snd (waitForVideoViaPoller s r)
      | LoopTurn inp \<Rightarrow> (if loopInstances s = 0 then s else pollLoopTurn reserve cfg s inp)
      | LoopFatal \<Rightarrow> (if loopInstances s = 0 then s else pollLoopFatal s))"

definition run :: "'e reserveFn \<Rightarrow> config \<Rightarrow> 'e poller \<Rightarrow> event list \<Rightarrow> 'e poller" where
  "run reserve cfg s evs = foldl (step reserve cfg) s evs"

section \<open>Pending jobs and the registry's shape\<close>

text \<open>
  A job is pending when the registry holds it under its own id; the registry is well keyed
  when its keys are distinct (it is a Map) and each job is stored under its own id.
\<close>

definition isPending :: "'e poller \<Rightarrow> PendingJobInfo \<Rightarrow> bool" where
  "isPending s job \<longleftrightarrow> map_of (pendingJobs s) (jobId job) = Some job"

definition wellKeyed :: "'e poller \<Rightarrow> bool" where
  "wellKeyed s \<longleftrightarrow>
     distinct (map fst (pendingJobs s)) \<and> (\<forall>(k, job) \<in> set (pendingJobs s). jobId job = k)"

text \<open>The timeout branch of the sweep, for one job.\<close>

definition rejectJob :: "'e poller \<Rightarrow> PendingJobInfo \<Rightarrow> 'e poller" where
  "rejectJob s job =
     s\<lparr>pendingJobs := AList.delete (jobId job) (pendingJobs s),
       settled := settled s @ [(future job, Rejected (jobId job))]\<rparr>"

section \<open>Invariants of the process\<close>

text \<open>
  The ids of the messages that resolved a job, in the order of the calls; the promises that
  were settled; the promises of the pending jobs.
\<close>

fun resolvedIds :: "(nat \<times> Settlement) list \<Rightarrow> int list" where
  "resolvedIds [] = []"
| "resolvedIds ((f, Resolved m meth n) # rest) = msgId m # resolvedIds rest"
| "resolvedIds ((f, Rejected j) # rest) = resolvedIds rest"

definition settledFutures :: "'e poller \<Rightarrow> nat list" where
  "settledFutures s = map fst (settled s)"

definition pendingFutures :: "'e poller \<Rightarrow> nat list" where
  "pendingFutures s = map (\<lambda>p. future (snd p)) (pendingJobs s)"

text \<open>
  The registry is well keyed, the pending jobs have different promises, no promise was
  settled twice, no pending job's promise was settled, every promise in use was created,
  and the messages that resolved jobs are different and are in the cache of reserved ids.
\<close>

definition consistent :: "'e poller \<Rightarrow> bool" where
  "consistent s \<longleftrightarrow>
     wellKeyed s \<and> distinct (pendingFutures s) \<and> distinct (settledFutures s) \<and>
     set (pendingFutures s) \<inter> set (settledFutures s) = {} \<and>
     (\<forall>f \<in> set (pendingFutures s) \<union> set (settledFutures s). f < promises s) \<and>
     distinct (resolvedIds (settled s)) \<and>
     set (resolvedIds (settled s)) \<subseteq> reservedMessageIds s"

text \<open>
  What one operation adds to the calls of the gate: ids outside the cache it started from,
  each once, and all in the cache afterwards unless the operation ended by an exception.
\<close>

definition claimsStep :: "error option \<Rightarrow> 'e poller \<Rightarrow> 'e poller \<Rightarrow> bool" where
  "claimsStep r s s' \<longleftrightarrow>
     reservedMessageIds s \<subseteq> reservedMessageIds s' \<and>
     (\<exists>new. claims s' = claims s @ new \<and> distinct (map fst new) \<and>
            set (map fst new) \<inter> reservedMessageIds s = {} \<and>
            (r = None \<longrightarrow> set (map fst new) \<subseteq> reservedMessageIds s'))"

section \<open>The scan counter, as the spec words it\<close>

text \<open>
  The number of inbound messages an event fetches: a turn of a live loop with a pending job
  and a client calls \<open>getMessages\<close> once, and the batch it answers is what was fetched.
  \<open>totalFetched\<close> adds this up along a run. \<open>deliversTotal n\<close> holds of a settlement
  that is a timeout, or a match delivered with the scan count \<open>n\<close>. \<open>sameTotal\<close> relates
  the states of one cycle after its fetch.
\<close>

definition fetchedBy :: "'e poller \<Rightarrow> event \<Rightarrow> nat" where
  "fetchedBy s ev =
     (case ev of
        LoopTurn inp \<Rightarrow>
          (if loopInstances s \<noteq> 0 \<and> pendingJobs s \<noteq> [] \<and> currentClient s
           then (case fetched inp of Inr messages \<Rightarrow> length messages | Inl e \<Rightarrow> 0)
           else 0)
      | Connect \<Rightarrow> 0
      | Register r \<Rightarrow> 0
      | LoopFatal \<Rightarrow> 0)"

fun totalFetched :: "'e reserveFn \<Rightarrow> config \<Rightarrow> 'e poller \<Rightarrow> event list \<Rightarrow> nat" where
  "totalFetched reserve cfg s [] = 0"
| "totalFetched reserve cfg s (ev # evs) =
     fetchedBy s ev + totalFetched reserve cfg (step reserve cfg s ev) evs"

definition deliversTotal :: "nat \<Rightarrow> nat \<times> Settlement \<Rightarrow> bool" where
  "deliversTotal n p = (case snd p of Resolved m meth t \<Rightarrow> t = n | Rejected j \<Rightarrow> True)"

definition sameTotal :: "'e poller \<Rightarrow> nat \<Rightarrow> 'e poller \<Rightarrow> bool" where
  "sameTotal s0 n s \<longleftrightarrow>
     wellKeyed s \<and> totalMessagesScanned s = n \<and>
     (\<exists>new. settled s = settled s0 @ new \<and> list_all (deliversTotal n) new)"

section \<open>Following one job through a cycle\<close>

text \<open>
  The job registered under \<open>k\<close> is still in the registry with its promise and its
  deadline, or it has left the registry and its promise was resolved with a match.
\<close>

definition tracked :: "jsstring \<Rightarrow> PendingJobInfo \<Rightarrow> 'e poller \<Rightarrow> bool" where
  "tracked k job s \<longleftrightarrow>
     wellKeyed s \<and>
     ((\<exists>job'. map_of (pendingJobs s) k = Some job' \<and> future job' = future job \<and>
              deadline job' = deadline job) \<or>
      (map_of (pendingJobs s) k = None \<and>
       (\<exists>m meth n. (future job, Resolved m meth n) \<in> set (settled s))))"

section \<open>The loop's life cycle\<close>

text \<open>
  At most one invocation of \<open>pollLoop\<close> is alive, and the flag is set while one is;
  \<open>sameLoop\<close> relates the states of one cycle, which touches neither.
\<close>

definition loopsOk :: "'e poller \<Rightarrow> bool" where
  "loopsOk s \<longleftrightarrow> loopInstances s \<le> 1 \<and> (loopInstances s = 0 \<or> pollerRunning s)"

definition sameLoop :: "'e poller \<Rightarrow> 'e poller \<Rightarrow> bool" where
  "sameLoop s0 s \<longleftrightarrow>
     wellKeyed s \<and> pollerRunning s = pollerRunning s0 \<and> loopInstances s = loopInstances s0"

section \<open>The proposals of the fallback phase\<close>

text \<open>
  \<open>bestFor\<close>: the candidate is in the pool, is not reserved, lies within the window of
  the job's reference time and is at least as close to it as every other unreserved
  candidate of the pool within the window. \<open>proposalsOk\<close>: every call of the gate in the
  list is a timestamp proposal of such a candidate for one of the jobs, where the ids put
  to the gate earlier in the list count as reserved.
\<close>

definition bestFor ::
  "config \<Rightarrow> VideoMessageInfo list \<Rightarrow> int set \<Rightarrow> PendingJobInfo \<Rightarrow> VideoMessageInfo \<Rightarrow> bool" where
  "bestFor cfg pool reserved job c \<longleftrightarrow>
     c \<in> set pool \<and> msgId (message c) \<notin> reserved \<and>
     \<bar>dateMs c - targetTimestamp job\<bar> \<le> FALLBACK_WINDOW_MS cfg \<and>
     (\<forall>c' \<in> set pool. msgId (message c') \<notin> reserved \<and>
          \<bar>dateMs c' - targetTimestamp job\<bar> \<le> FALLBACK_WINDOW_MS cfg
        \<longrightarrow> \<bar>dateMs c - targetTimestamp job\<bar> \<le> \<bar>dateMs c' - targetTimestamp job\<bar>)"

fun proposalsOk ::
  "config \<Rightarrow> VideoMessageInfo list \<Rightarrow> PendingJobInfo list \<Rightarrow> int set
     \<Rightarrow> (int \<times> jsstring \<times> MatchingMethod) list \<Rightarrow> bool" where
  "proposalsOk cfg pool jobs reserved [] = True"
| "proposalsOk cfg pool jobs reserved ((messageId, jid, meth) # rest) =
     (meth = TimestampMethod \<and>
      (\<exists>job \<in> set jobs. \<exists>c. jid = jobId job \<and> msgId (message c) = messageId \<and>
          bestFor cfg pool reserved job c) \<and>
      proposalsOk cfg pool jobs (insert messageId reserved) rest)"

section \<open>Sample inputs\<close>

text \<open>
  Modelled from the spec: \<open>reserveSyntaxMessageId\<close> of
  \<open>firebase/syntaxAssignmentsService\<close> is not part of the sources at hand. The spec's
  ReservationStore is first-writer-wins: \<open>tryReserve\<close> answers true for an id nobody
  holds and records it, and false for an id already held. The store is the set of ids held.
  It serves as the sample gate of the concrete runs below; the theorems hold for every gate.
\<close>

definition firstWriterWins :: "int set reserveFn" where
  "firstWriterWins st messageId jid meth =
     (if messageId \<in> st then (Inr False, st) else (Inr True, insert messageId st))"

text \<open>
  A message with a video attached, a body and a Date; a job; a state with pending jobs and
  a live loop; a registration; a cycle whose fetch succeeds.
\<close>

definition videoMessage :: "int \<Rightarrow> jsstring option \<Rightarrow> int \<Rightarrow> ApiMessage" where
  "videoMessage i body ms =
     \<lparr> msgId = i, messageText = body,
       media = Some (MessageMediaDocument (Document [DocumentAttributeVideo]) CaptionAbsent),
       date = DateObject ms \<rparr>"

definition sampleJob :: "jsstring \<Rightarrow> int \<Rightarrow> int \<Rightarrow> int \<Rightarrow> nat \<Rightarrow> PendingJobInfo" where
  "sampleJob jid created sent polls fut =
     \<lparr> jobId = jid, requestMessageId = 1, jobCreatedAt = created, sentAt = sent,
       deadline = sent + DEFAULT_TIMEOUT_MS, pollCount = polls, future = fut \<rparr>"

definition sampleState :: "PendingJobInfo list \<Rightarrow> int set \<Rightarrow> int set poller" where
  "sampleState jobs st =
     (initial st)\<lparr> pendingJobs := map (\<lambda>job. (jobId job, job)) jobs, currentClient := True,
                  pollerRunning := True, promises := length jobs, loopInstances := 1 \<rparr>"

definition sampleRegistration :: "jsstring \<Rightarrow> int \<Rightarrow> int \<Rightarrow> registration" where
  "sampleRegistration jid created now =
     \<lparr> regJobId = jid, regRequestMessageId = 1, regJobCreatedAt = created, regSentAt = now,
       regClock = now, regListed = Inr [] \<rparr>"


definition sampleCycle :: "ApiMessage list \<Rightarrow> int \<Rightarrow> cycleInput" where
  "sampleCycle messages now = \<lparr> fetched = Inr messages, scanClock = now, sweepClock = now \<rparr>"

section \<open>Evaluation of concrete runs\<close>

lemmas run_defs =
  firstWriterWins_def videoMessage_def sampleJob_def sampleState_def sampleCycle_def initial_def
  attemptAssignment_def messageInfo_def getMessageFullText_def mediaCaption_def
  isVideoMessage_def extractJobIdFromText_def matchAt_def groupAt_def markerOpen_def ascii_def
  closeBracket_def trim_def isWhiteSpace_def hasMark_def collectFallbackReadyJobs_def
  targetTimestamp_def processFallbackMatches_def checkPendingTimeouts_def pollOnce_def
  defaultConfig_def DEFAULT_TIMEOUT_MS_def addJobIdToPrompt_def ensureAssignmentsCache_def
  ensurePolling_def waitForVideoViaPoller_def setCurrentClient_def pollLoopTurn_def
  pollLoopFatal_def step_def run_def AList.delete_eq Let_def

section \<open>The inner selection loop\<close>

lemma selectCandidate_origin:
  "selectCandidate W R t cs best = Some (c, d) \<Longrightarrow>
     best = Some (c, d) \<or>
     (c \<in> set cs \<and> msgId (message c) \<notin> R \<and> d = \<bar>dateMs c - t\<bar> \<and> d \<le> W)"
  by (induction cs arbitrary: best) (auto simp: Let_def split: if_splits)

lemma selectCandidate_least:
  "selectCandidate W R t cs best = Some (c, d) \<Longrightarrow>
     (\<forall>c' \<in> set cs. msgId (message c') \<notin> R \<and> \<bar>dateMs c' - t\<bar> \<le> W \<longrightarrow> d \<le> \<bar>dateMs c' - t\<bar>) \<and>
     (case best of None \<Rightarrow> True | Some (b, bd) \<Rightarrow> d \<le> bd)"
proof (induction cs arbitrary: best)
  case Nil
  then show ?case by (auto split: option.splits)
next
  case (Cons x xs)
  show ?case
  proof (cases "msgId (message x) \<in> R")
    case True
    with Cons show ?thesis by simp
  next
    case False
    let ?dx = "\<bar>dateMs x - t\<bar>"
    show ?thesis
    proof (cases "?dx \<le> W \<and> (case best of None \<Rightarrow> True | Some (sel, bestDiff) \<Rightarrow> ?dx < bestDiff)")
      case True
      with False Cons.prems have "selectCandidate W R t xs (Some (x, ?dx)) = Some (c, d)"
        by (simp add: Let_def)
      from Cons.IH[OF this] True show ?thesis
        by (auto split: option.splits)
    next
      case no: False
      with False Cons.prems have "selectCandidate W R t xs best = Some (c, d)"
        by (simp add: Let_def)
      from Cons.IH[OF this] no False show ?thesis
        by (auto split: option.splits)
    qed
  qed
qed

lemma selectCandidate_None:
  "selectCandidate W R t cs best = None \<Longrightarrow>
     best = None \<and> (\<forall>c' \<in> set cs. msgId (message c') \<in> R \<or> W < \<bar>dateMs c' - t\<bar>)"
proof (induction cs arbitrary: best)
  case Nil
  then show ?case by simp
next
  case (Cons x xs)
  show ?case
  proof (cases "msgId (message x) \<in> R")
    case True
    with Cons.prems have "selectCandidate W R t xs best = None" by simp
    from Cons.IH[OF this] True show ?thesis by simp
  next
    case False
    let ?dx = "\<bar>dateMs x - t\<bar>"
    show ?thesis
    proof (cases "?dx \<le> W \<and> (case best of None \<Rightarrow> True | Some (sel, bestDiff) \<Rightarrow> ?dx < bestDiff)")
      case True
      with False Cons.prems have "selectCandidate W R t xs (Some (x, ?dx)) = None"
        by (simp add: Let_def)
      from Cons.IH[OF this] show ?thesis by simp
    next
      case no: False
      with False Cons.prems have "selectCandidate W R t xs best = None"
        by (simp add: Let_def)
      from Cons.IH[OF this] no show ?thesis by auto
    qed
  qed
qed


section \<open>Phase A only removes jobs\<close>

lemma attemptAssignment_pending_subset:
  "set (pendingJobs (snd (attemptAssignment reserve s job info meth))) \<subseteq> set (pendingJobs s)"
  by (auto simp: attemptAssignment_def Let_def AList.delete_eq split: prod.splits sum.splits bool.splits)

lemma matchMessagesByJobId_pending_subset:
  "set (pendingJobs (snd (matchMessagesByJobId reserve s vms))) \<subseteq> set (pendingJobs s)"
proof (induction vms arbitrary: s)
  case Nil
  show ?case by simp
next
  case (Cons info rest)
  show ?case
  proof (cases "hasMark (jobIdMark info)")
    case False
    then show ?thesis using Cons.IH[of s] by simp
  next
    case True
    show ?thesis
    proof (cases "map_of (pendingJobs s) (the (jobIdMark info))")
      case None
      then show ?thesis using True Cons.IH[of s] by simp
    next
      case (Some pending)
      obtain r s' where a: "attemptAssignment reserve s pending info JobIdMethod = (r, s')"
        by (cases "attemptAssignment reserve s pending info JobIdMethod")
      have sub: "set (pendingJobs s') \<subseteq> set (pendingJobs s)"
        using attemptAssignment_pending_subset[of reserve s pending info JobIdMethod] a by simp
      show ?thesis
      proof (cases r)
        case None
        then show ?thesis using True Some a sub Cons.IH[of s'] by auto
      next
        case (Some e)
        then show ?thesis using True \<open>map_of (pendingJobs s) (the (jobIdMark info)) = Some pending\<close> a sub
          by auto
      qed
    qed
  qed
qed

section \<open>Claims on single operations\<close>

text \<open>
  C6. When the claim of a proposed binding is lost (the gate answers false), the message id
  is added to the local cache of reserved ids, nothing is settled, and the registry of
  pending jobs is unchanged, so the job is tried again in the next cycle.
\<close>
theorem attemptAssignment_lost_race:
  assumes "msgId (message info) \<notin> reservedMessageIds s"
    and "reserve (store s) (msgId (message info)) (jobId job) meth = (Inr False, st)"
  shows "fst (attemptAssignment reserve s job info meth) = None \<and>
         reservedMessageIds (snd (attemptAssignment reserve s job info meth)) =
           insert (msgId (message info)) (reservedMessageIds s) \<and>
         settled (snd (attemptAssignment reserve s job info meth)) = settled s \<and>
         pendingJobs (snd (attemptAssignment reserve s job info meth)) = pendingJobs s"
  using assms by (simp add: attemptAssignment_def Let_def)

theorem attemptAssignment_lost_race_witness:
  "msgId (message (messageInfo 0 (videoMessage 7 None 2000))) \<notin>
     reservedMessageIds (sampleState [sampleJob (ascii ''b1'') 0 1000 3 0] {7}) \<and>
   firstWriterWins (store (sampleState [sampleJob (ascii ''b1'') 0 1000 3 0] {7}))
       (msgId (message (messageInfo 0 (videoMessage 7 None 2000))))
       (jobId (sampleJob (ascii ''b1'') 0 1000 3 0)) TimestampMethod = (Inr False, {7}) \<and>
   fst (attemptAssignment firstWriterWins (sampleState [sampleJob (ascii ''b1'') 0 1000 3 0] {7})
       (sampleJob (ascii ''b1'') 0 1000 3 0) (messageInfo 0 (videoMessage 7 None 2000))
       TimestampMethod) = None \<and>
   reservedMessageIds (snd (attemptAssignment firstWriterWins
       (sampleState [sampleJob (ascii ''b1'') 0 1000 3 0] {7})
       (sampleJob (ascii ''b1'') 0 1000 3 0) (messageInfo 0 (videoMessage 7 None 2000))
       TimestampMethod)) = {7} \<and>
   settled (snd (attemptAssignment firstWriterWins
       (sampleState [sampleJob (ascii ''b1'') 0 1000 3 0] {7})
       (sampleJob (ascii ''b1'') 0 1000 3 0) (messageInfo 0 (videoMessage 7 None 2000))
       TimestampMethod)) = [] \<and>
   pendingJobs (snd (attemptAssignment firstWriterWins
       (sampleState [sampleJob (ascii ''b1'') 0 1000 3 0] {7})
       (sampleJob (ascii ''b1'') 0 1000 3 0) (messageInfo 0 (videoMessage 7 None 2000))
       TimestampMethod)) = [(ascii ''b1'', sampleJob (ascii ''b1'') 0 1000 3 0)]"
  using attemptAssignment_lost_race[of "messageInfo 0 (videoMessage 7 None 2000)"
     "sampleState [sampleJob (ascii ''b1'') 0 1000 3 0] {7}" firstWriterWins
     "sampleJob (ascii ''b1'') 0 1000 3 0" TimestampMethod "{7}"]
  by (simp add: run_defs)

section \<open>The marker's round trip\<close>

lemma markerOpen_units: "markerOpen = [91, 74, 79, 66, 95, 73, 68, 58]"
  by (simp add: markerOpen_def ascii_def)

lemma closeBracket_not_space: "\<not> isWhiteSpace closeBracket"
  by (simp add: isWhiteSpace_def closeBracket_def)

lemma tryGroup_append: "m < length r \<Longrightarrow> tryGroup (r @ u) m = tryGroup r m"
proof (induction m)
  case 0
  show ?case by simp
next
  case (Suc m)
  then have "drop (Suc m) r \<noteq> []" by simp
  then obtain c cs where d: "drop (Suc m) r = c # cs" by (cases "drop (Suc m) r") auto
  have "drop (Suc m) (r @ u) = c # cs @ u" using d Suc.prems by simp
  moreover have "take (Suc m) (r @ u) = take (Suc m) r" using Suc.prems by simp
  moreover have "tryGroup (r @ u) m = tryGroup r m" using Suc by simp
  ultimately show ?case using d by simp
qed

lemma groupAt_append:
  assumes "closeBracket \<in> set r"
  shows "groupAt (r @ u) = groupAt r"
proof -
  have t: "takeWhile (\<lambda>c. c \<noteq> closeBracket) (r @ u) = takeWhile (\<lambda>c. c \<noteq> closeBracket) r"
    using takeWhile_append1[OF assms, of "\<lambda>c. c \<noteq> closeBracket" u] by simp
  have "dropWhile (\<lambda>c. c \<noteq> closeBracket) r \<noteq> []"
    using assms by (simp add: dropWhile_eq_Nil_conv)
  moreover have "length r = length (takeWhile (\<lambda>c. c \<noteq> closeBracket) r)
      + length (dropWhile (\<lambda>c. c \<noteq> closeBracket) r)"
    by (subst length_append[symmetric]) (simp only: takeWhile_dropWhile_id)
  ultimately have "length (takeWhile (\<lambda>c. c \<noteq> closeBracket) r) < length r"
    by simp
  then show ?thesis by (simp add: groupAt_def t tryGroup_append)
qed

lemma bracket_after_spaces:
  assumes "k \<le> length (takeWhile isWhiteSpace rest)" and "closeBracket \<in> set rest"
  shows "closeBracket \<in> set (drop k rest)"
proof -
  have "take k rest = take k (takeWhile isWhiteSpace rest @ dropWhile isWhiteSpace rest)"
    by simp
  also have "\<dots> = take k (takeWhile isWhiteSpace rest)"
    using assms(1) by (simp del: takeWhile_dropWhile_id)
  finally have "set (take k rest) \<subseteq> set (takeWhile isWhiteSpace rest)"
    using set_take_subset[of k "takeWhile isWhiteSpace rest"] by simp
  moreover have "closeBracket \<notin> set (takeWhile isWhiteSpace rest)"
    using closeBracket_not_space set_takeWhileD[of closeBracket isWhiteSpace rest] by blast
  ultimately have "closeBracket \<notin> set (take k rest)" by blast
  moreover have "set rest = set (take k rest) \<union> set (drop k rest)"
    by (metis append_take_drop_id set_append)
  ultimately show ?thesis using assms(2) by blast
qed

lemma trySpaces_append:
  "k \<le> length (takeWhile isWhiteSpace rest) \<Longrightarrow> closeBracket \<in> set rest \<Longrightarrow>
     trySpaces (rest @ u) k = trySpaces rest k"
proof (induction k)
  case 0
  then show ?case by (simp add: groupAt_append)
next
  case (Suc k)
  have le: "Suc k \<le> length rest"
    using Suc.prems(1) length_takeWhile_le[of isWhiteSpace rest] by linarith
  have "closeBracket \<in> set (drop (Suc k) rest)"
    using bracket_after_spaces[OF Suc.prems] .
  then have g: "groupAt (drop (Suc k) rest @ u) = groupAt (drop (Suc k) rest)"
    by (rule groupAt_append)
  have d: "drop (Suc k) (rest @ u) = drop (Suc k) rest @ u" using le by simp
  have i: "trySpaces (rest @ u) k = trySpaces rest k" using Suc by simp
  have "trySpaces (rest @ u) (Suc k) =
          (case groupAt (drop (Suc k) rest @ u) of Some g \<Rightarrow> Some g
           | None \<Rightarrow> trySpaces (rest @ u) k)"
    by (simp only: trySpaces.simps d)
  also have "\<dots> = trySpaces rest (Suc k)"
    by (simp only: trySpaces.simps g i)
  finally show ?case .
qed

lemma matchAt_append_terminated:
  assumes "take (length markerOpen) t = markerOpen"
    and "closeBracket \<in> set (drop (length markerOpen) t)"
  shows "matchAt (t @ u) = matchAt t"
proof -
  let ?rest = "drop (length markerOpen) t"
  have len: "length markerOpen \<le> length t"
    using assms(1) by (metis length_take min.cobounded2 min.commute)
  have 1: "take (length markerOpen) (t @ u) = markerOpen" using assms(1) len by simp
  have 2: "drop (length markerOpen) (t @ u) = ?rest @ u" using len by simp
  have 3: "takeWhile isWhiteSpace (?rest @ u) = takeWhile isWhiteSpace ?rest"
    using takeWhile_append1[of closeBracket ?rest isWhiteSpace u] assms(2) closeBracket_not_space
    by blast
  show ?thesis
    using 1 2 3 assms trySpaces_append[of "length (takeWhile isWhiteSpace ?rest)" ?rest u]
    by (simp add: matchAt_def Let_def)
qed

lemma no_open_across_linefeed:
  assumes "take (length markerOpen) t \<noteq> markerOpen"
  shows "take (length markerOpen) (t @ 10 # u) \<noteq> markerOpen"
proof (cases "length markerOpen \<le> length t")
  case True
  then show ?thesis using assms by simp
next
  case False
  then have "10 \<in> set (take (length markerOpen) (t @ 10 # u))"
    by (simp add: take_Cons')
  moreover have "10 \<notin> set markerOpen" by (simp add: markerOpen_units)
  ultimately show ?thesis by metis
qed

lemma matchAt_append_unopened:
  assumes "take (length markerOpen) t \<noteq> markerOpen"
  shows "matchAt (t @ 10 # u) = None"
  using no_open_across_linefeed[OF assms] by (simp add: matchAt_def)

lemma regexMatch_append:
  "regexMatch p = None \<Longrightarrow> \<not> unterminatedOpen p \<Longrightarrow>
     regexMatch (p @ 10 # u) = regexMatch (10 # u)"
proof (induction p)
  case Nil
  show ?case by simp
next
  case (Cons c cs)
  from Cons.prems(1) have m: "matchAt (c # cs) = None" and r: "regexMatch cs = None"
    by (auto split: option.splits)
  from Cons.prems(2) have u: "\<not> unterminatedOpen cs" by simp
  have "matchAt ((c # cs) @ 10 # u) = None"
  proof (cases "take (length markerOpen) (c # cs) = markerOpen")
    case True
    with Cons.prems(2) have "closeBracket \<in> set (drop (length markerOpen) (c # cs))" by auto
    from matchAt_append_terminated[OF True this] m show ?thesis by simp
  next
    case False
    then show ?thesis by (rule matchAt_append_unopened)
  qed
  then show ?case using Cons.IH[OF r u] by simp
qed

lemma matchAt_marker:
  assumes "jid \<noteq> []" and "closeBracket \<notin> set jid" and "\<not> isWhiteSpace (hd jid)"
  shows "matchAt (markerOpen @ [32] @ jid @ [closeBracket]) = Some jid"
proof -
  obtain m where m: "length jid = Suc m" using assms(1) by (cases jid) auto
  have tw: "takeWhile (\<lambda>c. c \<noteq> closeBracket) (jid @ [closeBracket]) = jid"
    using assms(2) by (subst takeWhile_append2) auto
  have "tryGroup (jid @ [closeBracket]) (Suc m) = Some jid"
    using m by simp
  then have g: "groupAt (jid @ [closeBracket]) = Some jid"
    by (simp add: groupAt_def tw m)
  have "takeWhile isWhiteSpace (32 # jid @ [closeBracket]) = [32]"
    using assms(1,3) by (cases jid) (auto simp: isWhiteSpace_def)
  then have "trySpaces (32 # jid @ [closeBracket])
               (length (takeWhile isWhiteSpace (32 # jid @ [closeBracket]))) = Some jid"
    using g by simp
  then show ?thesis by (simp add: matchAt_def Let_def)
qed

lemma trim_id:
  assumes "s \<noteq> []" and "\<not> isWhiteSpace (hd s)" and "\<not> isWhiteSpace (last s)"
  shows "trim s = s"
proof -
  have 1: "dropWhile isWhiteSpace s = s"
    using assms(2) by (simp add: dropWhile_eq_self_iff)
  have "hd (rev s) = last s" using assms(1) by (simp add: hd_rev)
  then have 2: "dropWhile isWhiteSpace (rev s) = rev s"
    using assms(3) by (simp add: dropWhile_eq_self_iff)
  show ?thesis by (simp add: trim_def 1 2)
qed

text \<open>
  C9, amended. A prompt may hold no marker and still hold the opening \<open>[JOB_ID:\<close>
  with no closing bracket after it; the marker appended then closes it, and the extraction
  yields the text from that opening on. For every prompt that holds no marker and no such
  unterminated opening, and every non-empty job id without a closing bracket and without
  white space at either end, extracting from the prompt with the marker appended yields
  exactly the job id.
\<close>
theorem marker_round_trip:
  assumes "extractJobIdFromText prompt = None" and "\<not> unterminatedOpen prompt"
    and "jid \<noteq> []" and "closeBracket \<notin> set jid"
    and "\<not> isWhiteSpace (hd jid)" and "\<not> isWhiteSpace (last jid)"
  shows "extractJobIdFromText (addJobIdToPrompt prompt jid) = Some jid"
proof -
  let ?marker = "markerOpen @ [32] @ jid @ [closeBracket]"
  have n: "regexMatch prompt = None" using assms(1) by (simp add: extractJobIdFromText_def)
  have "regexMatch (prompt @ 10 # 10 # ?marker) = regexMatch (10 # 10 # ?marker)"
    using regexMatch_append[OF n assms(2)] .
  also have "\<dots> = regexMatch ?marker"
    by (simp add: matchAt_def markerOpen_units)
  also have "\<dots> = Some jid"
    using matchAt_marker[OF assms(3,4,5)] by (simp add: markerOpen_units)
  finally have "regexMatch (addJobIdToPrompt prompt jid) = Some jid"
    by (simp add: addJobIdToPrompt_def)
  then show ?thesis
    using trim_id[OF assms(3,5,6)] by (simp add: extractJobIdFromText_def)
qed

lemmas str_defs = extractJobIdFromText_def matchAt_def groupAt_def markerOpen_def ascii_def
  closeBracket_def trim_def isWhiteSpace_def addJobIdToPrompt_def Let_def

theorem marker_round_trip_counterexample:
  "extractJobIdFromText (ascii ''[JOB_ID: x'') = None \<and>
   extractJobIdFromText (addJobIdToPrompt (ascii ''[JOB_ID: x'') (ascii ''a1''))
     = Some (ascii ''x'' @ [10, 10] @ ascii ''[JOB_ID: a1'') \<and>
   ascii ''x'' @ [10, 10] @ ascii ''[JOB_ID: a1'' \<noteq> ascii ''a1''"
  by (simp add: str_defs)

theorem marker_round_trip_witness:
  "extractJobIdFromText (ascii ''make a video [JOB_ID:] please'') = None \<and>
   \<not> unterminatedOpen (ascii ''make a video [JOB_ID:] please'') \<and>
   extractJobIdFromText (addJobIdToPrompt (ascii ''make a video [JOB_ID:] please'') (ascii ''job 17''))
     = Some (ascii ''job 17'')"
  using marker_round_trip[of "ascii ''make a video [JOB_ID:] please''" "ascii ''job 17''"]
  by (simp add: str_defs)

section \<open>What every cycle preserves\<close>

lemma timeoutLoop_rejectJob:
  "timeoutLoop now s (job # jobs) =
     (if now > deadline job then timeoutLoop now (rejectJob s job) jobs
      else timeoutLoop now s jobs)"
  by (simp add: rejectJob_def)

lemma wellKeyed_lookup:
  "wellKeyed s \<Longrightarrow> map_of (pendingJobs s) k = Some job \<Longrightarrow> isPending s job \<and> jobId job = k"
  by (auto simp: wellKeyed_def isPending_def dest!: map_of_SomeD)

lemma wellKeyed_member:
  "wellKeyed s \<Longrightarrow> (k, job) \<in> set (pendingJobs s) \<Longrightarrow> isPending s job \<and> jobId job = k"
  by (auto simp: wellKeyed_def isPending_def)

lemma attemptAssignment_pending_cases:
  "pendingJobs (snd (attemptAssignment reserve s job info meth)) = pendingJobs s \<or>
   pendingJobs (snd (attemptAssignment reserve s job info meth)) =
     AList.delete (jobId job) (pendingJobs s)"
  by (auto simp: attemptAssignment_def Let_def split: prod.splits sum.splits bool.splits)

lemma isPending_after_attempt:
  assumes "isPending s other" and "jobId other \<noteq> jobId job"
  shows "isPending (snd (attemptAssignment reserve s job info meth)) other"
  using assms attemptAssignment_pending_cases[of reserve s job info meth]
  by (auto simp: isPending_def delete_conv)

lemma isPending_after_reject:
  assumes "isPending s other" and "jobId other \<noteq> jobId job"
  shows "isPending (rejectJob s job) other"
  using assms by (auto simp: isPending_def rejectJob_def delete_conv)

lemma matchMessagesByJobId_preserves:
  assumes att: "\<And>s job info. P s \<Longrightarrow> isPending s job \<Longrightarrow>
                  P (snd (attemptAssignment reserve s job info JobIdMethod))"
    and wk: "\<And>s. P s \<Longrightarrow> wellKeyed s"
    and "P s"
  shows "P (snd (matchMessagesByJobId reserve s vms))"
  using assms(3)
proof (induction vms arbitrary: s)
  case Nil
  then show ?case by simp
next
  case (Cons info rest)
  show ?case
  proof (cases "hasMark (jobIdMark info)")
    case False
    then show ?thesis using Cons by simp
  next
    case True
    show ?thesis
    proof (cases "map_of (pendingJobs s) (the (jobIdMark info))")
      case None
      then show ?thesis using True Cons by simp
    next
      case (Some pending)
      obtain r s' where a: "attemptAssignment reserve s pending info JobIdMethod = (r, s')"
        by (cases "attemptAssignment reserve s pending info JobIdMethod")
      have "isPending s pending" using wellKeyed_lookup[OF wk[OF Cons.prems] Some] by simp
      from att[OF Cons.prems this, of info] a have p: "P s'" by simp
      show ?thesis
      proof (cases r)
        case None
        then show ?thesis using True Some a Cons.IH[OF p] by simp
      next
        case (Some e)
        then show ?thesis
          using True \<open>map_of (pendingJobs s) (the (jobIdMark info)) = Some pending\<close> a p by simp
      qed
    qed
  qed
qed

lemma fallbackLoop_preserves:
  assumes att: "\<And>s job info. P s \<Longrightarrow> isPending s job \<Longrightarrow>
                  P (snd (attemptAssignment reserve s job info TimestampMethod))"
    and "P s"
    and "\<forall>job \<in> set jobs. isPending s job"
    and "distinct (map jobId jobs)"
  shows "P (snd (fallbackLoop reserve cfg s pool jobs))"
  using assms(2,3,4)
proof (induction jobs arbitrary: s pool)
  case Nil
  then show ?case by simp
next
  case (Cons job jobs)
  have rest: "\<forall>j \<in> set jobs. isPending s j" "distinct (map jobId jobs)"
    using Cons.prems by simp_all
  show ?case
  proof (cases "selectCandidate (FALLBACK_WINDOW_MS cfg) (reservedMessageIds s)
                  (targetTimestamp job) pool None")
    case None
    then show ?thesis using Cons.IH[OF Cons.prems(1) rest] by simp
  next
    case (Some sel)
    obtain selected bestDiff where sel: "sel = (selected, bestDiff)" by (cases sel)
    obtain r s' where a: "attemptAssignment reserve s job selected TimestampMethod = (r, s')"
      by (cases "attemptAssignment reserve s job selected TimestampMethod")
    have "isPending s job" using Cons.prems(2) by simp
    from att[OF Cons.prems(1) this, of selected] a have p: "P s'" by simp
    show ?thesis
    proof (cases r)
      case None
      have "\<forall>j \<in> set jobs. isPending s' j"
      proof
        fix j assume j: "j \<in> set jobs"
        have "jobId job \<notin> set (map jobId jobs)" using Cons.prems(3) by simp
        moreover have "jobId j \<in> set (map jobId jobs)" using j by simp
        ultimately have "jobId j \<noteq> jobId job" by auto
        have "isPending s j" using rest(1) j by blast
        from isPending_after_attempt[OF this \<open>jobId j \<noteq> jobId job\<close>, of reserve selected TimestampMethod] a
        show "isPending s' j" by simp
      qed
      from Cons.IH[OF p this rest(2)] show ?thesis using Some sel a None by simp
    next
      case (Some e)
      then show ?thesis
        using \<open>selectCandidate (FALLBACK_WINDOW_MS cfg) (reservedMessageIds s)
                  (targetTimestamp job) pool None = Some sel\<close> sel a p by simp
    qed
  qed
qed

lemma timeoutLoop_preserves:
  assumes rej: "\<And>s job. P s \<Longrightarrow> isPending s job \<Longrightarrow> P (rejectJob s job)"
    and "P s"
    and "\<forall>job \<in> set jobs. isPending s job"
    and "distinct (map jobId jobs)"
  shows "P (timeoutLoop now s jobs)"
  using assms(2,3,4)
proof (induction jobs arbitrary: s)
  case Nil
  then show ?case by simp
next
  case (Cons job jobs)
  have rest: "\<forall>j \<in> set jobs. isPending s j" "distinct (map jobId jobs)"
    using Cons.prems by simp_all
  show ?case
  proof (cases "now > deadline job")
    case False
    then show ?thesis using Cons.IH[OF Cons.prems(1) rest] by simp
  next
    case True
    have "isPending s job" using Cons.prems(2) by simp
    from rej[OF Cons.prems(1) this] have p: "P (rejectJob s job)" .
    have "\<forall>j \<in> set jobs. isPending (rejectJob s job) j"
    proof
      fix j assume j: "j \<in> set jobs"
      have "jobId job \<notin> set (map jobId jobs)" using Cons.prems(3) by simp
      moreover have "jobId j \<in> set (map jobId jobs)" using j by simp
        ultimately have "jobId j \<noteq> jobId job" by auto
      from isPending_after_reject[OF _ this] rest(1) j
      show "isPending (rejectJob s job) j" by blast
    qed
    from Cons.IH[OF p this rest(2)] show ?thesis
      using True by (simp only: timeoutLoop_rejectJob if_True)
  qed
qed

lemma snapshot_pending:
  assumes "wellKeyed s"
  shows "(\<forall>job \<in> set (map snd (pendingJobs s)). isPending s job) \<and>
         distinct (map jobId (map snd (pendingJobs s)))"
proof -
  have k: "\<forall>(k, job) \<in> set (pendingJobs s). jobId job = k"
    and d: "distinct (map fst (pendingJobs s))"
    using assms by (simp_all add: wellKeyed_def)
  have e: "map (jobId \<circ> snd) (pendingJobs s) = map fst (pendingJobs s)"
    using k by (intro map_cong) auto
  have 1: "distinct (map jobId (map snd (pendingJobs s)))"
    unfolding map_map e by (rule d)
  have 2: "\<forall>job \<in> set (map snd (pendingJobs s)). isPending s job"
  proof
    fix job assume "job \<in> set (map snd (pendingJobs s))"
    then obtain k where "(k, job) \<in> set (pendingJobs s)" by auto
    from wellKeyed_member[OF assms this] show "isPending s job" by simp
  qed
  from 1 2 show ?thesis by blast
qed

lemma checkPendingTimeouts_preserves:
  assumes rej: "\<And>s job. P s \<Longrightarrow> isPending s job \<Longrightarrow> P (rejectJob s job)"
    and "P s" and "wellKeyed s"
  shows "P (checkPendingTimeouts now s)"
proof -
  have a: "\<forall>job \<in> set (map snd (pendingJobs s)). isPending s job"
    and b: "distinct (map jobId (map snd (pendingJobs s)))"
    using snapshot_pending[OF assms(3)] by blast+
  show ?thesis
    unfolding checkPendingTimeouts_def
    by (rule timeoutLoop_preserves[of P s "map snd (pendingJobs s)" now, OF rej assms(2) a b])
qed

lemma collect_wellKeyed:
  assumes "wellKeyed s"
  shows "wellKeyed (snd (collectFallbackReadyJobs cfg s)) \<and>
         (\<forall>job \<in> set (fst (collectFallbackReadyJobs cfg s)).
             isPending (snd (collectFallbackReadyJobs cfg s)) job) \<and>
         distinct (map jobId (fst (collectFallbackReadyJobs cfg s)))"
proof -
  let ?bump = "\<lambda>(k, job). (k, job\<lparr>pollCount := pollCount job + 1\<rparr>)"
  let ?jobs = "map ?bump (pendingJobs s)"
  let ?s3 = "s\<lparr>pendingJobs := ?jobs\<rparr>"
  have fstmap: "map fst ?jobs = map fst (pendingJobs s)"
    by (simp add: case_prod_beta comp_def)
  have d: "distinct (map fst (pendingJobs s))" using assms by (simp add: wellKeyed_def)
  have "distinct (map fst ?jobs)" by (simp only: fstmap d)
  then have "distinct (map fst (pendingJobs ?s3))" by simp
  moreover have "\<forall>(k, job) \<in> set (pendingJobs ?s3). jobId job = k"
    using assms by (auto simp: wellKeyed_def)
  ultimately have wk: "wellKeyed ?s3" unfolding wellKeyed_def by blast
  have snap: "(\<forall>job \<in> set (map snd ?jobs). isPending ?s3 job) \<and>
              distinct (map jobId (map snd ?jobs))"
    using snapshot_pending[OF wk] by simp
  have sub: "distinct (map jobId (filter (\<lambda>job. pollCount job \<ge> FALLBACK_POLLS_THRESHOLD cfg)
                (map snd ?jobs)))"
    using snap by (simp only: distinct_map_filter)
  have eq: "collectFallbackReadyJobs cfg s =
      (filter (\<lambda>job. pollCount job \<ge> FALLBACK_POLLS_THRESHOLD cfg) (map snd ?jobs), ?s3)"
    by (simp add: collectFallbackReadyJobs_def Let_def)
  have r: "\<forall>job \<in> set (filter (\<lambda>job. pollCount job \<ge> FALLBACK_POLLS_THRESHOLD cfg)
              (map snd ?jobs)). isPending ?s3 job"
  proof
    fix job
    assume "job \<in> set (filter (\<lambda>job. pollCount job \<ge> FALLBACK_POLLS_THRESHOLD cfg)
              (map snd ?jobs))"
    then have "job \<in> set (map snd ?jobs)"
      using filter_is_subset[of "\<lambda>job. pollCount job \<ge> FALLBACK_POLLS_THRESHOLD cfg"
          "map snd ?jobs"] by blast
    then show "isPending ?s3 job" using snap by blast
  qed
  show ?thesis
    unfolding eq fst_conv snd_conv using wk r sub by blast
qed

lemma processFallbackMatches_preserves:
  assumes att: "\<And>s job info. P s \<Longrightarrow> isPending s job \<Longrightarrow>
                  P (snd (attemptAssignment reserve s job info TimestampMethod))"
    and "P s"
    and "\<forall>job \<in> set jobs. isPending s job"
    and "distinct (map jobId jobs)"
  shows "P (snd (processFallbackMatches reserve cfg s vms jobs))"
  using fallbackLoop_preserves[of P reserve s jobs cfg, OF att assms(2,3,4)] assms(2)
  by (simp add: processFallbackMatches_def Let_def)

text \<open>One cycle preserves a property that each of its atomic effects preserves.\<close>

lemma pollOnce_preserves:
  assumes att: "\<And>s job info meth. P s \<Longrightarrow> isPending s job \<Longrightarrow>
                  P (snd (attemptAssignment reserve s job info meth))"
    and rej: "\<And>s job. P s \<Longrightarrow> isPending s job \<Longrightarrow> P (rejectJob s job)"
    and bump: "\<And>s. P s \<Longrightarrow> P (snd (collectFallbackReadyJobs cfg s))"
    and wk: "\<And>s. P s \<Longrightarrow> wellKeyed s"
    and scan: "\<And>messages. currentClient s \<Longrightarrow> fetched inp = Inr messages \<Longrightarrow>
                  P (s\<lparr>totalMessagesScanned := totalMessagesScanned s + length messages\<rparr>)"
    and idle: "\<not> currentClient s \<or> (\<exists>e. fetched inp = Inl e) \<Longrightarrow> P s"
  shows "P (snd (pollOnce reserve cfg s inp))"
proof (cases "currentClient s")
  case False
  then show ?thesis using idle by (simp add: pollOnce_def)
next
  case True
  show ?thesis
  proof (cases "fetched inp")
    case (Inl e)
    then show ?thesis using True idle by (simp add: pollOnce_def)
  next
    case (Inr messages)
    let ?s1 = "s\<lparr>totalMessagesScanned := totalMessagesScanned s + length messages\<rparr>"
    let ?vms = "filterVideoMessages (scanClock inp) messages"
    obtain r2 s2 where m: "matchMessagesByJobId reserve ?s1 ?vms = (r2, s2)"
      by (cases "matchMessagesByJobId reserve ?s1 ?vms")
    have p1: "P ?s1" using scan[OF True Inr] .
    have p2: "P s2"
      using matchMessagesByJobId_preserves[of P reserve ?s1 ?vms, OF att wk p1] m by simp
    show ?thesis
    proof (cases r2)
      case (Some e)
      then show ?thesis using True Inr m p2 by (simp add: pollOnce_def Let_def)
    next
      case None
      obtain ready s3 where c: "collectFallbackReadyJobs cfg s2 = (ready, s3)"
        by (cases "collectFallbackReadyJobs cfg s2")
      have p3: "P s3" using bump[OF p2] c by simp
      have rd: "\<forall>job \<in> set ready. isPending s3 job" "distinct (map jobId ready)"
        using collect_wellKeyed[OF wk[OF p2], of cfg] c by simp_all
      obtain r4 s4 where f: "processFallbackMatches reserve cfg s3 ?vms ready = (r4, s4)"
        by (cases "processFallbackMatches reserve cfg s3 ?vms ready")
      have p4: "P s4"
        using processFallbackMatches_preserves[of P reserve s3 ready cfg ?vms, OF att p3 rd] f
        by simp
      show ?thesis
      proof (cases r4)
        case (Some e)
        then show ?thesis using True Inr m None c f p4 by (simp add: pollOnce_def Let_def)
      next
        case n4: None
        have "P (checkPendingTimeouts (sweepClock inp) s4)"
          using checkPendingTimeouts_preserves[of P s4, OF rej p4 wk[OF p4]] .
        then show ?thesis using True Inr m None c f n4 by (simp add: pollOnce_def Let_def)
      qed
    qed
  qed
qed

section \<open>Consistency of every run\<close>

lemma resolvedIds_append: "resolvedIds (xs @ ys) = resolvedIds xs @ resolvedIds ys"
  by (induction xs rule: resolvedIds.induct) auto

lemma isPending_member: "isPending s job \<Longrightarrow> (jobId job, job) \<in> set (pendingJobs s)"
  by (simp add: isPending_def map_of_SomeD)

lemma delete_wellKeyed:
  assumes "wellKeyed s"
  shows "distinct (map fst (AList.delete k (pendingJobs s))) \<and>
         (\<forall>(k', job) \<in> set (AList.delete k (pendingJobs s)). jobId job = k')"
proof
  show "distinct (map fst (AList.delete k (pendingJobs s)))"
    using assms by (simp add: wellKeyed_def distinct_delete)
  show "\<forall>(k', job) \<in> set (AList.delete k (pendingJobs s)). jobId job = k'"
    using assms by (auto simp: wellKeyed_def AList.delete_eq)
qed

lemma delete_futures:
  assumes wk: "wellKeyed s" and d: "distinct (pendingFutures s)" and p: "isPending s job"
  shows "distinct (map (\<lambda>p. future (snd p)) (AList.delete (jobId job) (pendingJobs s)))"
    and "set (map (\<lambda>p. future (snd p)) (AList.delete (jobId job) (pendingJobs s)))
           = set (pendingFutures s) - {future job}"
proof -
  let ?del = "AList.delete (jobId job) (pendingJobs s)"
  have del: "?del = filter (\<lambda>(k', v). jobId job \<noteq> k') (pendingJobs s)"
    by (simp add: AList.delete_eq)
  show "distinct (map (\<lambda>p. future (snd p)) ?del)"
    unfolding del using d distinct_map_filter[of "\<lambda>p. future (snd p)" "pendingJobs s"]
    by (simp add: pendingFutures_def)
  have mem: "(jobId job, job) \<in> set (pendingJobs s)" using p by (rule isPending_member)
  have inj: "inj_on (\<lambda>p. future (snd p)) (set (pendingJobs s))"
    using d by (simp add: pendingFutures_def distinct_map)
  show "set (map (\<lambda>p. future (snd p)) ?del) = set (pendingFutures s) - {future job}"
  proof (intro set_eqI iffI)
    fix f assume "f \<in> set (map (\<lambda>p. future (snd p)) ?del)"
    then obtain k' j' where e: "(k', j') \<in> set (pendingJobs s)" "k' \<noteq> jobId job" "f = future j'"
      unfolding del by auto
    have "future j' \<noteq> future job"
    proof
      assume "future j' = future job"
      then have "(\<lambda>p. future (snd p)) (k', j') = (\<lambda>p. future (snd p)) (jobId job, job)" by simp
      from inj_onD[OF inj this e(1) mem] e(2) show False by simp
    qed
    then show "f \<in> set (pendingFutures s) - {future job}"
      using e by (force simp: pendingFutures_def)
  next
    fix f assume "f \<in> set (pendingFutures s) - {future job}"
    then obtain k' j' where e: "(k', j') \<in> set (pendingJobs s)" "f = future j'" "f \<noteq> future job"
      by (auto simp: pendingFutures_def)
    have "k' \<noteq> jobId job"
    proof
      assume "k' = jobId job"
      then have "j' = job" using wellKeyed_member[OF wk e(1)] wellKeyed_member[OF wk mem]
        by (auto simp: isPending_def)
      then show False using e by simp
    qed
    then show "f \<in> set (map (\<lambda>p. future (snd p)) ?del)"
      unfolding del using e by force
  qed
qed

lemma consistent_after_settle:
  assumes c: "consistent s" and p: "isPending s job"
    and s': "pendingJobs s' = AList.delete (jobId job) (pendingJobs s)"
            "settled s' = settled s @ [(future job, outcome)]"
            "promises s' = promises s"
    and ids: "distinct (resolvedIds (settled s'))"
             "set (resolvedIds (settled s')) \<subseteq> reservedMessageIds s'"
  shows "consistent s'"
proof -
  have wk: "wellKeyed s" and d: "distinct (pendingFutures s)"
    and ds: "distinct (settledFutures s)"
    and dj: "set (pendingFutures s) \<inter> set (settledFutures s) = {}"
    and bd: "\<forall>f \<in> set (pendingFutures s) \<union> set (settledFutures s). f < promises s"
    using c by (simp_all add: consistent_def)
  have fj: "future job \<in> set (pendingFutures s)"
    using isPending_member[OF p] by (force simp: pendingFutures_def)
  have 1: "wellKeyed s'" using delete_wellKeyed[OF wk, of "jobId job"] s'(1)
    by (simp add: wellKeyed_def)
  have pf: "distinct (pendingFutures s')" "set (pendingFutures s') = set (pendingFutures s) - {future job}"
    using delete_futures[OF wk d p] s'(1) by (simp_all add: pendingFutures_def)
  have sf: "settledFutures s' = settledFutures s @ [future job]"
    using s'(2) by (simp add: settledFutures_def)
  have 3: "distinct (settledFutures s')" using ds dj fj sf by auto
  have 4: "set (pendingFutures s') \<inter> set (settledFutures s') = {}"
    using pf(2) sf dj by auto
  have 5: "\<forall>f \<in> set (pendingFutures s') \<union> set (settledFutures s'). f < promises s'"
    using pf(2) sf bd fj s'(3) by auto
  show ?thesis
    unfolding consistent_def using 1 pf(1) 3 4 5 ids by blast
qed

lemma consistent_frame:
  assumes "consistent s"
    and "pendingJobs s' = pendingJobs s" "settled s' = settled s" "promises s' = promises s"
    and "reservedMessageIds s \<subseteq> reservedMessageIds s'"
  shows "consistent s'"
  using assms by (auto simp: consistent_def wellKeyed_def pendingFutures_def settledFutures_def)

lemma consistent_attempt:
  assumes c: "consistent s" and p: "isPending s job"
  shows "consistent (snd (attemptAssignment reserve s job info meth))"
proof (cases "msgId (message info) \<in> reservedMessageIds s")
  case True
  then show ?thesis using c by (simp add: attemptAssignment_def)
next
  case False
  obtain a st where r: "reserve (store s) (msgId (message info)) (jobId job) meth = (a, st)"
    by (cases "reserve (store s) (msgId (message info)) (jobId job) meth")
  show ?thesis
  proof (cases a)
    case (Inl e)
    have "consistent (s\<lparr>store := st,
        claims := claims s @ [(msgId (message info), jobId job, meth)]\<rparr>)"
      by (rule consistent_frame[OF c]) simp_all
    then show ?thesis using False r Inl by (simp add: attemptAssignment_def Let_def)
  next
    case (Inr won)
    show ?thesis
    proof (cases won)
      case False
      have "consistent (s\<lparr>store := st,
          claims := claims s @ [(msgId (message info), jobId job, meth)],
          reservedMessageIds := insert (msgId (message info)) (reservedMessageIds s)\<rparr>)"
        by (rule consistent_frame[OF c]) auto
      then show ?thesis
        using \<open>msgId (message info) \<notin> reservedMessageIds s\<close> r Inr False
        by (simp add: attemptAssignment_def Let_def)
    next
      case True
      let ?s' = "s\<lparr>store := st,
          claims := claims s @ [(msgId (message info), jobId job, meth)],
          reservedMessageIds := insert (msgId (message info)) (reservedMessageIds s),
          pendingJobs := AList.delete (jobId job) (pendingJobs s),
          settled := settled s @
             [(future job, Resolved (message info) meth (totalMessagesScanned s))]\<rparr>"
      have ids: "distinct (resolvedIds (settled s))"
        "set (resolvedIds (settled s)) \<subseteq> reservedMessageIds s"
        using c by (simp_all add: consistent_def)
      have "msgId (message info) \<notin> set (resolvedIds (settled s))"
        using ids(2) \<open>msgId (message info) \<notin> reservedMessageIds s\<close> by blast
      then have i1: "distinct (resolvedIds (settled ?s'))"
        using ids(1) by (simp add: resolvedIds_append)
      have i2: "set (resolvedIds (settled ?s')) \<subseteq> reservedMessageIds ?s'"
        using ids(2) by (auto simp: resolvedIds_append)
      have "consistent ?s'"
        by (rule consistent_after_settle[OF c p _ _ _ i1 i2]) simp_all
      then show ?thesis
        using \<open>msgId (message info) \<notin> reservedMessageIds s\<close> r Inr True
        by (simp add: attemptAssignment_def Let_def)
    qed
  qed
qed

lemma consistent_reject:
  assumes c: "consistent s" and p: "isPending s job"
  shows "consistent (rejectJob s job)"
proof -
  have ids: "distinct (resolvedIds (settled s))"
    "set (resolvedIds (settled s)) \<subseteq> reservedMessageIds s"
    using c by (simp_all add: consistent_def)
  have i1: "distinct (resolvedIds (settled (rejectJob s job)))"
    using ids(1) by (simp add: rejectJob_def resolvedIds_append)
  have i2: "set (resolvedIds (settled (rejectJob s job))) \<subseteq> reservedMessageIds (rejectJob s job)"
    using ids(2) by (simp add: rejectJob_def resolvedIds_append)
  show ?thesis
    by (rule consistent_after_settle[OF c p _ _ _ i1 i2]) (simp_all add: rejectJob_def)
qed

lemma consistent_collect:
  assumes c: "consistent s"
  shows "consistent (snd (collectFallbackReadyJobs cfg s))"
proof -
  let ?s3 = "snd (collectFallbackReadyJobs cfg s)"
  have wk: "wellKeyed ?s3" using collect_wellKeyed[of s cfg] c by (simp add: consistent_def)
  have pf: "pendingFutures ?s3 = pendingFutures s"
    by (simp add: collectFallbackReadyJobs_def Let_def pendingFutures_def case_prod_beta comp_def)
  have other: "settled ?s3 = settled s" "promises ?s3 = promises s"
    "reservedMessageIds ?s3 = reservedMessageIds s"
    by (simp_all add: collectFallbackReadyJobs_def Let_def)
  show ?thesis
    using c wk unfolding consistent_def pf settledFutures_def other by blast
qed

lemma consistent_wellKeyed: "consistent s \<Longrightarrow> wellKeyed s"
  by (simp add: consistent_def)

lemma consistent_scan:
  "consistent s \<Longrightarrow> consistent (s\<lparr>totalMessagesScanned := totalMessagesScanned s + n\<rparr>)"
  using consistent_frame[of s "s\<lparr>totalMessagesScanned := totalMessagesScanned s + n\<rparr>"]
  by simp

lemma consistent_pollOnce:
  assumes "consistent s"
  shows "consistent (snd (pollOnce reserve cfg s inp))"
proof (rule pollOnce_preserves[of consistent reserve cfg s inp])
  show "consistent (snd (attemptAssignment reserve s job info meth))"
    if "consistent s" "isPending s job" for s :: "'a poller" and job info meth
    using that by (rule consistent_attempt)
  show "consistent (rejectJob s job)"
    if "consistent s" "isPending s job" for s :: "'a poller" and job
    using that by (rule consistent_reject)
  show "consistent (snd (collectFallbackReadyJobs cfg s))"
    if "consistent s" for s :: "'a poller"
    using that by (rule consistent_collect)
  show "wellKeyed s" if "consistent s" for s :: "'a poller"
    using that by (rule consistent_wellKeyed)
  show "consistent (s\<lparr>totalMessagesScanned := totalMessagesScanned s + length messages\<rparr>)"
    for messages
    using assms by (rule consistent_scan)
  show "consistent s" by (rule assms)
qed

lemma update_member:
  "(k', v') \<in> set (AList.update k v al) \<Longrightarrow> (k', v') = (k, v) \<or> (k', v') \<in> set al"
  by (induction al) (auto split: if_splits)

lemma update_futures:
  assumes "\<forall>(k', j) \<in> set al. future j < n" and "distinct (map (\<lambda>p. future (snd p)) al)"
    and "future v = n"
  shows "distinct (map (\<lambda>p. future (snd p)) (AList.update k v al))"
  using assms
proof (induction al)
  case Nil
  then show ?case by simp
next
  case (Cons p al)
  have lt: "\<forall>x \<in> set al. future (snd x) < n" using Cons.prems(1) by auto
  show ?case
  proof (cases "fst p = k")
    case True
    have "n \<notin> (\<lambda>p. future (snd p)) ` set al" using lt by auto
    then show ?thesis using True Cons.prems by simp
  next
    case False
    have "\<forall>(k', j) \<in> set al. future j < n" using Cons.prems(1) by auto
    moreover have "distinct (map (\<lambda>p. future (snd p)) al)"
      using Cons.prems(2) by simp
    ultimately have ih: "distinct (map (\<lambda>p. future (snd p)) (AList.update k v al))"
      using Cons.IH Cons.prems(3) by blast
    have "future (snd p) \<notin> (\<lambda>p. future (snd p)) ` set (AList.update k v al)"
    proof
      assume "future (snd p) \<in> (\<lambda>p. future (snd p)) ` set (AList.update k v al)"
      then obtain k' v' where m: "(k', v') \<in> set (AList.update k v al)" "future v' = future (snd p)"
        by auto
      from update_member[OF m(1)] show False
      proof
        assume "(k', v') = (k, v)"
        then have "future (snd p) = n" using m(2) Cons.prems(3) by simp
        moreover have "future (snd p) < n" using Cons.prems(1) by auto
        ultimately show False by simp
      next
        assume "(k', v') \<in> set al"
        then have "future (snd p) \<in> (\<lambda>p. future (snd p)) ` set al"
          using m(2) by (metis (mono_tags, lifting) image_eqI snd_conv)
        then show False using Cons.prems(2) by simp
      qed
    qed
    then show ?thesis using False ih by simp
  qed
qed

lemma consistent_register:
  assumes c: "consistent s"
  shows "consistent (snd (waitForVideoViaPoller s r))"
proof (cases "currentClient s")
  case False
  then show ?thesis using c by (simp add: waitForVideoViaPoller_def)
next
  case True
  obtain e1 s1 where ea: "ensureAssignmentsCache s (regListed r) = (e1, s1)"
    by (cases "ensureAssignmentsCache s (regListed r)")
  have c1: "consistent s1"
  proof (rule consistent_frame[OF c])
    show "pendingJobs s1 = pendingJobs s" "settled s1 = settled s" "promises s1 = promises s"
      "reservedMessageIds s \<subseteq> reservedMessageIds s1"
      using ea by (auto simp: ensureAssignmentsCache_def split: if_splits sum.splits)
  qed
  show ?thesis
  proof (cases e1)
    case (Some e)
    then show ?thesis using True ea c1 by (simp add: waitForVideoViaPoller_def)
  next
    case None
    let ?job = "\<lparr> jobId = regJobId r, requestMessageId = regRequestMessageId r,
                  jobCreatedAt = regJobCreatedAt r, sentAt = regSentAt r,
                  deadline = regClock r + DEFAULT_TIMEOUT_MS, pollCount = 0,
                  future = promises s1 \<rparr>"
    let ?s2 = "s1\<lparr>promises := promises s1 + 1,
                 pendingJobs := AList.update (regJobId r) ?job (pendingJobs s1)\<rparr>"
    have wk: "wellKeyed s1" and d: "distinct (pendingFutures s1)"
      and ds: "distinct (settledFutures s1)"
      and dj: "set (pendingFutures s1) \<inter> set (settledFutures s1) = {}"
      and bd: "\<forall>f \<in> set (pendingFutures s1) \<union> set (settledFutures s1). f < promises s1"
      and ids: "distinct (resolvedIds (settled s1))"
               "set (resolvedIds (settled s1)) \<subseteq> reservedMessageIds s1"
      using c1 by (simp_all add: consistent_def)
    have mem: "\<And>k' v'. (k', v') \<in> set (pendingJobs ?s2) \<Longrightarrow>
                 (k', v') = (regJobId r, ?job) \<or> (k', v') \<in> set (pendingJobs s1)"
      using update_member[of _ _ "regJobId r" ?job "pendingJobs s1"] by simp
    have 1: "wellKeyed ?s2"
      unfolding wellKeyed_def
    proof
      show "distinct (map fst (pendingJobs ?s2))"
        using wk by (simp add: wellKeyed_def distinct_update)
      show "\<forall>(k, job) \<in> set (pendingJobs ?s2). jobId job = k"
      proof (clarify)
        fix k job assume "(k, job) \<in> set (pendingJobs ?s2)"
        from mem[OF this] show "jobId job = k" using wk by (auto simp: wellKeyed_def)
      qed
    qed
    have lt: "\<forall>(k', j) \<in> set (pendingJobs s1). future j < promises s1"
    proof (clarify)
      fix k' j assume "(k', j) \<in> set (pendingJobs s1)"
      then have "future j \<in> set (pendingFutures s1)" by (force simp: pendingFutures_def)
      then show "future j < promises s1" using bd by blast
    qed
    have 2: "distinct (pendingFutures ?s2)"
      using update_futures[of "pendingJobs s1" "promises s1" ?job "regJobId r", OF lt]
        d by (simp add: pendingFutures_def)
    have sub: "set (pendingFutures ?s2) \<subseteq> insert (promises s1) (set (pendingFutures s1))"
    proof
      fix f assume "f \<in> set (pendingFutures ?s2)"
      then obtain k' v' where m: "(k', v') \<in> set (pendingJobs ?s2)" "f = future v'"
        by (auto simp: pendingFutures_def)
      from mem[OF m(1)] show "f \<in> insert (promises s1) (set (pendingFutures s1))"
        using m(2) by (force simp: pendingFutures_def)
    qed
    have fresh: "promises s1 \<notin> set (settledFutures s1)" using bd by auto
    have sf2: "settledFutures ?s2 = settledFutures s1" by (simp add: settledFutures_def)
    have pr2: "promises ?s2 = Suc (promises s1)" by simp
    have st2: "settled ?s2 = settled s1" "reservedMessageIds ?s2 = reservedMessageIds s1"
      by simp_all
    have 4: "set (pendingFutures ?s2) \<inter> set (settledFutures ?s2) = {}"
      unfolding sf2 using sub dj fresh by blast
    have 5: "\<forall>f \<in> set (pendingFutures ?s2) \<union> set (settledFutures ?s2). f < promises ?s2"
      unfolding sf2 pr2
    proof
      fix f assume "f \<in> set (pendingFutures ?s2) \<union> set (settledFutures s1)"
      then have "f = promises s1 \<or> f \<in> set (pendingFutures s1) \<union> set (settledFutures s1)"
        using sub by blast
      then show "f < Suc (promises s1)" using bd less_SucI by blast
    qed
    have 3: "distinct (settledFutures ?s2)" unfolding sf2 by (rule ds)
    have 6: "distinct (resolvedIds (settled ?s2))"
      "set (resolvedIds (settled ?s2)) \<subseteq> reservedMessageIds ?s2"
      unfolding st2 by (rule ids)+
    have c2: "consistent ?s2"
      unfolding consistent_def using 1 2 3 4 5 6 by blast
    have "consistent (ensurePolling ?s2)"
      by (rule consistent_frame[OF c2]) (simp_all add: ensurePolling_def)
    then show ?thesis using True ea None by (simp add: waitForVideoViaPoller_def Let_def)
  qed
qed

lemma consistent_initial: "consistent (initial e)"
  by (simp add: consistent_def initial_def wellKeyed_def pendingFutures_def settledFutures_def)

lemma consistent_step:
  assumes "consistent s"
  shows "consistent (step reserve cfg s ev)"
proof (cases ev)
  case Connect
  have "consistent (setCurrentClient s)"
    by (rule consistent_frame[OF assms]) (simp_all add: setCurrentClient_def)
  then show ?thesis using Connect by (simp add: step_def)
next
  case (Register r)
  then show ?thesis using consistent_register[OF assms] by (simp add: step_def)
next
  case (LoopTurn inp)
  have "consistent (s\<lparr>pollerRunning := False, loopInstances := loopInstances s - 1\<rparr>)"
    by (rule consistent_frame[OF assms]) simp_all
  then show ?thesis
    using LoopTurn assms consistent_pollOnce[OF assms, of reserve cfg inp]
    by (simp add: step_def pollLoopTurn_def)
next
  case LoopFatal
  have "consistent (pollLoopFatal s)"
    by (rule consistent_frame[OF assms]) (simp_all add: pollLoopFatal_def)
  then show ?thesis using LoopFatal assms by (simp add: step_def)
qed

lemma consistent_run: "consistent s \<Longrightarrow> consistent (run reserve cfg s evs)"
  unfolding run_def by (induction evs arbitrary: s) (simp_all add: consistent_step)

text \<open>
  C8. In every run from the initial state, no promise is settled twice (a job is resolved
  or rejected at most once, never both), and no job in the registry has a settled promise:
  a job that is settled has left the registry, and the pending jobs have different promises,
  so nothing can settle it again.
\<close>
theorem settled_at_most_once:
  "distinct (settledFutures (run reserve cfg (initial e) evs)) \<and>
   distinct (pendingFutures (run reserve cfg (initial e) evs)) \<and>
   set (pendingFutures (run reserve cfg (initial e) evs))
     \<inter> set (settledFutures (run reserve cfg (initial e) evs)) = {}"
  using consistent_run[OF consistent_initial, of reserve cfg e evs]
  by (simp add: consistent_def)

theorem settled_at_most_once_witness:
  "settled (run firstWriterWins defaultConfig (initial {})
     [Connect, Register (sampleRegistration (ascii ''a1'') 0 1000),
      Register (sampleRegistration (ascii ''b1'') 0 1500),
      LoopTurn (sampleCycle [videoMessage 10 (Some (ascii ''ok [JOB_ID: a1]'')) 2000] 8000),
      LoopTurn (sampleCycle [videoMessage 10 (Some (ascii ''ok [JOB_ID: a1]'')) 2000] 1900000)])
     = [(0, Resolved (videoMessage 10 (Some (ascii ''ok [JOB_ID: a1]'')) 2000) JobIdMethod 1),
        (1, Rejected (ascii ''b1''))] \<and>
   pendingJobs (run firstWriterWins defaultConfig (initial {})
     [Connect, Register (sampleRegistration (ascii ''a1'') 0 1000),
      Register (sampleRegistration (ascii ''b1'') 0 1500),
      LoopTurn (sampleCycle [videoMessage 10 (Some (ascii ''ok [JOB_ID: a1]'')) 2000] 8000),
      LoopTurn (sampleCycle [videoMessage 10 (Some (ascii ''ok [JOB_ID: a1]'')) 2000] 1900000)])
     = []"
  using settled_at_most_once[of firstWriterWins defaultConfig "{}"
     "[Connect, Register (sampleRegistration (ascii ''a1'') 0 1000),
      Register (sampleRegistration (ascii ''b1'') 0 1500),
      LoopTurn (sampleCycle [videoMessage 10 (Some (ascii ''ok [JOB_ID: a1]'')) 2000] 8000),
      LoopTurn (sampleCycle [videoMessage 10 (Some (ascii ''ok [JOB_ID: a1]'')) 2000] 1900000)]"]
  by (simp add: run_defs sampleRegistration_def)

lemma claimsStep_refl: "claimsStep r s s"
  by (simp add: claimsStep_def)

lemma claimsStep_trans:
  assumes "claimsStep None s s1" and "claimsStep r s1 s2"
  shows "claimsStep r s s2"
proof -
  from assms(1) obtain new1 where 1: "reservedMessageIds s \<subseteq> reservedMessageIds s1"
    "claims s1 = claims s @ new1" "distinct (map fst new1)"
    "set (map fst new1) \<inter> reservedMessageIds s = {}"
    "set (map fst new1) \<subseteq> reservedMessageIds s1"
    by (auto simp: claimsStep_def)
  from assms(2) obtain new2 where 2: "reservedMessageIds s1 \<subseteq> reservedMessageIds s2"
    "claims s2 = claims s1 @ new2" "distinct (map fst new2)"
    "set (map fst new2) \<inter> reservedMessageIds s1 = {}"
    "r = None \<longrightarrow> set (map fst new2) \<subseteq> reservedMessageIds s2"
    by (auto simp: claimsStep_def)
  have a: "claims s2 = claims s @ (new1 @ new2)" using 1(2) 2(2) by simp
  have b: "distinct (map fst (new1 @ new2))" using 1(3,5) 2(3,4) by auto
  have c: "set (map fst (new1 @ new2)) \<inter> reservedMessageIds s = {}"
    using 1(1,4) 2(4) by auto
  have d: "r = None \<longrightarrow> set (map fst (new1 @ new2)) \<subseteq> reservedMessageIds s2"
    using 1(5) 2(1,5) by auto
  have e: "reservedMessageIds s \<subseteq> reservedMessageIds s2" using 1(1) 2(1) by blast
  show ?thesis unfolding claimsStep_def using a b c d e by blast
qed

lemma claimsStep_attempt:
  "claimsStep (fst (attemptAssignment reserve s job info meth))
     s (snd (attemptAssignment reserve s job info meth))"
proof (cases "msgId (message info) \<in> reservedMessageIds s")
  case True
  then show ?thesis by (simp add: attemptAssignment_def claimsStep_refl)
next
  case False
  obtain a st where r: "reserve (store s) (msgId (message info)) (jobId job) meth = (a, st)"
    by (cases "reserve (store s) (msgId (message info)) (jobId job) meth")
  show ?thesis
  proof (cases a)
    case (Inl e)
    then show ?thesis using False r
      by (simp add: attemptAssignment_def Let_def claimsStep_def)
  next
    case (Inr won)
    then show ?thesis using False r
      by (cases won) (auto simp: attemptAssignment_def Let_def claimsStep_def)
  qed
qed

lemma claimsStep_match:
  "claimsStep (fst (matchMessagesByJobId reserve s vms)) s
     (snd (matchMessagesByJobId reserve s vms))"
proof (induction vms arbitrary: s)
  case Nil
  show ?case by (simp add: claimsStep_refl)
next
  case (Cons info rest)
  show ?case
  proof (cases "hasMark (jobIdMark info)")
    case False
    then show ?thesis using Cons.IH[of s] by simp
  next
    case True
    show ?thesis
    proof (cases "map_of (pendingJobs s) (the (jobIdMark info))")
      case None
      then show ?thesis using True Cons.IH[of s] by simp
    next
      case (Some pending)
      obtain r s' where a: "attemptAssignment reserve s pending info JobIdMethod = (r, s')"
        by (cases "attemptAssignment reserve s pending info JobIdMethod")
      have st: "claimsStep r s s'"
        using claimsStep_attempt[of reserve s pending info JobIdMethod] a by simp
      show ?thesis
      proof (cases r)
        case None
        then show ?thesis
          using True Some a claimsStep_trans[OF _ Cons.IH[of s']] st by simp
      next
        case (Some e)
        then show ?thesis
          using True \<open>map_of (pendingJobs s) (the (jobIdMark info)) = Some pending\<close> a st by simp
      qed
    qed
  qed
qed

lemma claimsStep_fallbackLoop:
  "claimsStep (fst (fallbackLoop reserve cfg s pool jobs)) s
     (snd (fallbackLoop reserve cfg s pool jobs))"
proof (induction jobs arbitrary: s pool)
  case Nil
  show ?case by (simp add: claimsStep_refl)
next
  case (Cons job jobs)
  show ?case
  proof (cases "selectCandidate (FALLBACK_WINDOW_MS cfg) (reservedMessageIds s)
                  (targetTimestamp job) pool None")
    case None
    then show ?thesis using Cons.IH[of s pool] by simp
  next
    case (Some sel)
    obtain selected bestDiff where sel: "sel = (selected, bestDiff)" by (cases sel)
    obtain r s' where a: "attemptAssignment reserve s job selected TimestampMethod = (r, s')"
      by (cases "attemptAssignment reserve s job selected TimestampMethod")
    have st: "claimsStep r s s'"
      using claimsStep_attempt[of reserve s job selected TimestampMethod] a by simp
    show ?thesis
    proof (cases r)
      case None
      then show ?thesis
        using Some sel a claimsStep_trans[OF _ Cons.IH[of s' "remove1 selected pool"]] st
        by simp
    next
      case (Some e)
      then show ?thesis
        using \<open>selectCandidate (FALLBACK_WINDOW_MS cfg) (reservedMessageIds s)
                  (targetTimestamp job) pool None = Some sel\<close> sel a st by simp
    qed
  qed
qed

lemma claimsStep_process:
  "claimsStep (fst (processFallbackMatches reserve cfg s vms jobs)) s
     (snd (processFallbackMatches reserve cfg s vms jobs))"
  by (simp add: processFallbackMatches_def Let_def claimsStep_refl claimsStep_fallbackLoop)

lemma timeoutLoop_claims:
  "claims (timeoutLoop now s jobs) = claims s \<and>
   reservedMessageIds (timeoutLoop now s jobs) = reservedMessageIds s"
  by (induction jobs arbitrary: s) auto

lemma claimsStep_pollOnce:
  "claimsStep (fst (pollOnce reserve cfg s inp)) s (snd (pollOnce reserve cfg s inp))"
proof (cases "currentClient s")
  case False
  then show ?thesis by (simp add: pollOnce_def claimsStep_refl)
next
  case True
  show ?thesis
  proof (cases "fetched inp")
    case (Inl e)
    then show ?thesis using True by (simp add: pollOnce_def claimsStep_refl)
  next
    case (Inr messages)
    let ?s1 = "s\<lparr>totalMessagesScanned := totalMessagesScanned s + length messages\<rparr>"
    let ?vms = "filterVideoMessages (scanClock inp) messages"
    obtain r2 s2 where m: "matchMessagesByJobId reserve ?s1 ?vms = (r2, s2)"
      by (cases "matchMessagesByJobId reserve ?s1 ?vms")
    have "claimsStep r2 ?s1 s2" using claimsStep_match[of reserve ?s1 ?vms] m by simp
    then have st2: "claimsStep r2 s s2" by (simp add: claimsStep_def)
    show ?thesis
    proof (cases r2)
      case (Some e)
      then show ?thesis using True Inr m st2 by (simp add: pollOnce_def Let_def)
    next
      case None
      obtain ready s3 where c: "collectFallbackReadyJobs cfg s2 = (ready, s3)"
        by (cases "collectFallbackReadyJobs cfg s2")
      have s3: "claims s3 = claims s2" "reservedMessageIds s3 = reservedMessageIds s2"
        using c by (auto simp: collectFallbackReadyJobs_def Let_def)
      obtain r4 s4 where f: "processFallbackMatches reserve cfg s3 ?vms ready = (r4, s4)"
        by (cases "processFallbackMatches reserve cfg s3 ?vms ready")
      have "claimsStep r4 s3 s4"
        using claimsStep_process[of reserve cfg s3 ?vms ready] f by simp
      then have "claimsStep r4 s2 s4" using s3 by (simp add: claimsStep_def)
      then have st4: "claimsStep r4 s s4" using claimsStep_trans st2 None by blast
      show ?thesis
      proof (cases r4)
        case (Some e)
        then show ?thesis using True Inr m None c f st4 by (simp add: pollOnce_def Let_def)
      next
        case n4: None
        have "claimsStep None s (checkPendingTimeouts (sweepClock inp) s4)"
          using st4 n4 timeoutLoop_claims[of "sweepClock inp" s4 "map snd (pendingJobs s4)"]
          by (simp add: claimsStep_def checkPendingTimeouts_def)
        then show ?thesis using True Inr m None c f n4 by (simp add: pollOnce_def Let_def)
      qed
    qed
  qed
qed

text \<open>
  C4. In every run from the initial state, the messages that resolved jobs are pairwise
  different: at most one job ever settles with a given message id. Within one cycle, no
  message id is put to the gate twice, so no candidate is proposed to two jobs.
\<close>
theorem no_double_claim:
  "distinct (resolvedIds (settled (run reserve cfg (initial e) evs))) \<and>
   (\<exists>new. claims (snd (pollOnce reserve cfg s inp)) = claims s @ new \<and>
          distinct (map fst new))"
proof
  show "distinct (resolvedIds (settled (run reserve cfg (initial e) evs)))"
    using consistent_run[OF consistent_initial, of reserve cfg e evs]
    by (simp add: consistent_def)
  show "\<exists>new. claims (snd (pollOnce reserve cfg s inp)) = claims s @ new \<and>
          distinct (map fst new)"
    using claimsStep_pollOnce[of reserve cfg s inp] unfolding claimsStep_def by blast
qed

theorem no_double_claim_witness:
  "resolvedIds (settled (run firstWriterWins defaultConfig (initial {})
     [Connect, Register (sampleRegistration (ascii ''c1'') 0 1000),
      Register (sampleRegistration (ascii ''c2'') 0 1500),
      LoopTurn (sampleCycle [videoMessage 20 None 2000] 8000),
      LoopTurn (sampleCycle [videoMessage 20 None 2000] 15000),
      LoopTurn (sampleCycle [videoMessage 20 None 2000] 22000),
      LoopTurn (sampleCycle [videoMessage 20 None 2000] 29000)])) = [20] \<and>
   map fst (pendingJobs (run firstWriterWins defaultConfig (initial {})
     [Connect, Register (sampleRegistration (ascii ''c1'') 0 1000),
      Register (sampleRegistration (ascii ''c2'') 0 1500),
      LoopTurn (sampleCycle [videoMessage 20 None 2000] 8000),
      LoopTurn (sampleCycle [videoMessage 20 None 2000] 15000),
      LoopTurn (sampleCycle [videoMessage 20 None 2000] 22000),
      LoopTurn (sampleCycle [videoMessage 20 None 2000] 29000)])) = [ascii ''c2''] \<and>
   claims (run firstWriterWins defaultConfig (initial {})
     [Connect, Register (sampleRegistration (ascii ''c1'') 0 1000),
      Register (sampleRegistration (ascii ''c2'') 0 1500),
      LoopTurn (sampleCycle [videoMessage 20 None 2000] 8000),
      LoopTurn (sampleCycle [videoMessage 20 None 2000] 15000),
      LoopTurn (sampleCycle [videoMessage 20 None 2000] 22000),
      LoopTurn (sampleCycle [videoMessage 20 None 2000] 29000)])
     = [(20, ascii ''c1'', TimestampMethod)]"
  using no_double_claim[of firstWriterWins defaultConfig "{}"
     "[Connect, Register (sampleRegistration (ascii ''c1'') 0 1000),
      Register (sampleRegistration (ascii ''c2'') 0 1500),
      LoopTurn (sampleCycle [videoMessage 20 None 2000] 8000),
      LoopTurn (sampleCycle [videoMessage 20 None 2000] 15000),
      LoopTurn (sampleCycle [videoMessage 20 None 2000] 22000),
      LoopTurn (sampleCycle [videoMessage 20 None 2000] 29000)]"]
  by (simp add: run_defs sampleRegistration_def)

section \<open>The scan counter\<close>

lemma wellKeyed_attempt:
  assumes "wellKeyed s"
  shows "wellKeyed (snd (attemptAssignment reserve s job info meth))"
  using attemptAssignment_pending_cases[of reserve s job info meth]
    delete_wellKeyed[OF assms, of "jobId job"] assms
  by (auto simp: wellKeyed_def)

lemma wellKeyed_reject:
  assumes "wellKeyed s"
  shows "wellKeyed (rejectJob s job)"
  using delete_wellKeyed[OF assms, of "jobId job"] by (simp add: wellKeyed_def rejectJob_def)

lemma attemptAssignment_settled:
  "totalMessagesScanned (snd (attemptAssignment reserve s job info meth)) = totalMessagesScanned s \<and>
   (settled (snd (attemptAssignment reserve s job info meth)) = settled s \<or>
    settled (snd (attemptAssignment reserve s job info meth)) =
      settled s @ [(future job, Resolved (message info) meth (totalMessagesScanned s))])"
  by (auto simp: attemptAssignment_def Let_def split: prod.splits sum.splits bool.splits)

lemma sameTotal_attempt:
  assumes "sameTotal s0 n s"
  shows "sameTotal s0 n (snd (attemptAssignment reserve s job info meth))"
proof -
  let ?s' = "snd (attemptAssignment reserve s job info meth)"
  from assms obtain new where n: "wellKeyed s" "totalMessagesScanned s = n"
    "settled s = settled s0 @ new" "list_all (deliversTotal n) new"
    by (auto simp: sameTotal_def)
  have t: "totalMessagesScanned ?s' = n"
    using attemptAssignment_settled[of reserve s job info meth] n(2) by simp
  have "\<exists>new'. settled ?s' = settled s0 @ new' \<and> list_all (deliversTotal n) new'"
  proof (cases "settled ?s' = settled s")
    case True
    then show ?thesis using n(3,4) by auto
  next
    case False
    then have "settled ?s' = settled s0 @
        (new @ [(future job, Resolved (message info) meth (totalMessagesScanned s))])"
      using attemptAssignment_settled[of reserve s job info meth] n(3) by auto
    moreover have "list_all (deliversTotal n)
        (new @ [(future job, Resolved (message info) meth (totalMessagesScanned s))])"
      using n(2,4) by (simp add: deliversTotal_def)
    ultimately show ?thesis by blast
  qed
  then show ?thesis
    unfolding sameTotal_def using wellKeyed_attempt[OF n(1)] t by blast
qed

lemma sameTotal_reject:
  assumes "sameTotal s0 n s"
  shows "sameTotal s0 n (rejectJob s job)"
proof -
  from assms obtain new where n: "wellKeyed s" "totalMessagesScanned s = n"
    "settled s = settled s0 @ new" "list_all (deliversTotal n) new"
    by (auto simp: sameTotal_def)
  have "settled (rejectJob s job) = settled s0 @ (new @ [(future job, Rejected (jobId job))])"
    using n(3) by (simp add: rejectJob_def)
  moreover have "list_all (deliversTotal n) (new @ [(future job, Rejected (jobId job))])"
    using n(4) by (simp add: deliversTotal_def)
  moreover have "totalMessagesScanned (rejectJob s job) = n"
    using n(2) by (simp add: rejectJob_def)
  ultimately show ?thesis
    unfolding sameTotal_def using wellKeyed_reject[OF n(1)] by blast
qed

lemma sameTotal_collect:
  assumes "sameTotal s0 n s"
  shows "sameTotal s0 n (snd (collectFallbackReadyJobs cfg s))"
proof -
  have "wellKeyed (snd (collectFallbackReadyJobs cfg s))"
    using collect_wellKeyed[of s cfg] assms by (simp add: sameTotal_def)
  moreover have "settled (snd (collectFallbackReadyJobs cfg s)) = settled s"
    "totalMessagesScanned (snd (collectFallbackReadyJobs cfg s)) = totalMessagesScanned s"
    by (simp_all add: collectFallbackReadyJobs_def Let_def)
  ultimately show ?thesis using assms by (simp add: sameTotal_def)
qed

lemma sameTotal_start: "wellKeyed s \<Longrightarrow> sameTotal s (totalMessagesScanned s) s"
  by (simp add: sameTotal_def)

lemma pollOnce_total:
  assumes wk: "wellKeyed s"
  shows "sameTotal s
           (totalMessagesScanned s +
              (if currentClient s
               then (case fetched inp of Inr messages \<Rightarrow> length messages | Inl e \<Rightarrow> 0)
               else 0))
           (snd (pollOnce reserve cfg s inp))"
    (is "sameTotal s ?n _")
proof (rule pollOnce_preserves[of "sameTotal s ?n" reserve cfg s inp])
  show "sameTotal s ?n (snd (attemptAssignment reserve s' job info meth))"
    if "sameTotal s ?n s'" "isPending s' job" for s' job info meth
    using that(1) by (rule sameTotal_attempt)
  show "sameTotal s ?n (rejectJob s' job)"
    if "sameTotal s ?n s'" "isPending s' job" for s' job
    using that(1) by (rule sameTotal_reject)
  show "sameTotal s ?n (snd (collectFallbackReadyJobs cfg s'))"
    if "sameTotal s ?n s'" for s'
    using that by (rule sameTotal_collect)
  show "wellKeyed s'" if "sameTotal s ?n s'" for s'
    using that by (simp add: sameTotal_def)
  show "sameTotal s ?n (s\<lparr>totalMessagesScanned := totalMessagesScanned s + length messages\<rparr>)"
    if "currentClient s" "fetched inp = Inr messages" for messages
    using that wk by (simp add: sameTotal_def wellKeyed_def)
  show "sameTotal s ?n s" if "\<not> currentClient s \<or> (\<exists>e. fetched inp = Inl e)"
    using that sameTotal_start[OF wk] by auto
qed

lemma register_frame:
  "settled (snd (waitForVideoViaPoller s r)) = settled s \<and>
   totalMessagesScanned (snd (waitForVideoViaPoller s r)) = totalMessagesScanned s"
  by (auto simp: waitForVideoViaPoller_def ensureAssignmentsCache_def ensurePolling_def Let_def
      split: option.splits sum.splits prod.splits if_splits)

lemma step_total:
  assumes "wellKeyed s"
  shows "totalMessagesScanned (step reserve cfg s ev) = totalMessagesScanned s + fetchedBy s ev \<and>
         (\<exists>new. settled (step reserve cfg s ev) = settled s @ new \<and>
                list_all (deliversTotal (totalMessagesScanned s + fetchedBy s ev)) new)"
proof (cases ev)
  case Connect
  then show ?thesis by (simp add: step_def setCurrentClient_def fetchedBy_def)
next
  case (Register r)
  then show ?thesis using register_frame[of s r] by (simp add: step_def fetchedBy_def)
next
  case LoopFatal
  then show ?thesis by (simp add: step_def pollLoopFatal_def fetchedBy_def)
next
  case (LoopTurn inp)
  show ?thesis
  proof (cases "loopInstances s \<noteq> 0 \<and> pendingJobs s \<noteq> []")
    case False
    then show ?thesis using LoopTurn
      by (auto simp: step_def pollLoopTurn_def fetchedBy_def)
  next
    case True
    have f: "fetchedBy s ev = (if currentClient s
               then (case fetched inp of Inr messages \<Rightarrow> length messages | Inl e \<Rightarrow> 0)
               else 0)"
      using True LoopTurn by (simp add: fetchedBy_def)
    have st: "step reserve cfg s ev = snd (pollOnce reserve cfg s inp)"
      using True LoopTurn by (simp add: step_def pollLoopTurn_def)
    show ?thesis
      using pollOnce_total[OF assms, of inp reserve cfg] unfolding st f sameTotal_def by blast
  qed
qed

lemma run_Cons: "run reserve cfg s (ev # evs) = run reserve cfg (step reserve cfg s ev) evs"
  by (simp add: run_def)

lemma run_append:
  "run reserve cfg s (evs @ later) = run reserve cfg (run reserve cfg s evs) later"
  by (simp add: run_def)

lemma totalFetched_append:
  "totalFetched reserve cfg s (evs @ later) =
     totalFetched reserve cfg s evs + totalFetched reserve cfg (run reserve cfg s evs) later"
  by (induction evs arbitrary: s) (simp_all add: run_def)

lemma run_total:
  "consistent s \<Longrightarrow>
     totalMessagesScanned (run reserve cfg s evs) = totalMessagesScanned s + totalFetched reserve cfg s evs"
proof (induction evs arbitrary: s)
  case Nil
  show ?case by (simp add: run_def)
next
  case (Cons ev evs)
  have "totalMessagesScanned (step reserve cfg s ev) = totalMessagesScanned s + fetchedBy s ev"
    using step_total[OF consistent_wellKeyed[OF Cons.prems]] by blast
  then show ?case
    using Cons.IH[OF consistent_step[OF Cons.prems], of reserve cfg ev]
    by (simp add: run_Cons)
qed

text \<open>
  C10. The counter is one for the process. After every run from the initial state it equals
  the number of messages fetched by all poll cycles so far, whatever jobs they served; it
  never decreases as the run goes on; and every match delivered by an event carries the
  number of messages fetched up to and including that event.
\<close>
theorem total_is_cumulative:
  "totalMessagesScanned (run reserve cfg (initial e) evs) = totalFetched reserve cfg (initial e) evs \<and>
   totalMessagesScanned (run reserve cfg (initial e) evs)
     \<le> totalMessagesScanned (run reserve cfg (initial e) (evs @ later)) \<and>
   (\<exists>new. settled (run reserve cfg (initial e) (evs @ [ev]))
            = settled (run reserve cfg (initial e) evs) @ new \<and>
          list_all (deliversTotal (totalFetched reserve cfg (initial e) (evs @ [ev]))) new)"
proof -
  let ?s = "run reserve cfg (initial e) evs"
  have c: "consistent ?s" by (rule consistent_run[OF consistent_initial])
  have i: "totalMessagesScanned (initial e) = 0" by (simp add: initial_def)
  have 1: "totalMessagesScanned ?s = totalFetched reserve cfg (initial e) evs"
    using run_total[OF consistent_initial, of reserve cfg e evs] i by simp
  have "totalMessagesScanned (run reserve cfg ?s later)
          = totalMessagesScanned ?s + totalFetched reserve cfg ?s later"
    by (rule run_total[OF c])
  then have 2: "totalMessagesScanned ?s
                  \<le> totalMessagesScanned (run reserve cfg (initial e) (evs @ later))"
    by (simp add: run_append)
  have r: "run reserve cfg (initial e) (evs @ [ev]) = step reserve cfg ?s ev"
    by (simp add: run_def)
  have t: "totalFetched reserve cfg (initial e) (evs @ [ev])
             = totalMessagesScanned ?s + fetchedBy ?s ev"
    using 1 by (simp add: totalFetched_append)
  have 3: "\<exists>new. settled (run reserve cfg (initial e) (evs @ [ev])) = settled ?s @ new \<and>
          list_all (deliversTotal (totalFetched reserve cfg (initial e) (evs @ [ev]))) new"
    unfolding r t using step_total[OF consistent_wellKeyed[OF c], of reserve cfg ev] by blast
  from 1 2 3 show ?thesis by blast
qed

theorem total_is_cumulative_witness:
  "settled (run firstWriterWins defaultConfig (initial {})
     [Connect, Register (sampleRegistration (ascii ''a1'') 0 1000),
      LoopTurn (sampleCycle [videoMessage 10 (Some (ascii ''[JOB_ID: a1]'')) 2000,
                             videoMessage 11 None 2500, videoMessage 12 None 2600] 7000),
      Register (sampleRegistration (ascii ''b1'') 8000 9000),
      LoopTurn (sampleCycle [videoMessage 13 (Some (ascii ''done [JOB_ID: b1]'')) 9500,
                             videoMessage 10 (Some (ascii ''[JOB_ID: a1]'')) 2000] 14000)])
   = [(0, Resolved (videoMessage 10 (Some (ascii ''[JOB_ID: a1]'')) 2000) JobIdMethod 3),
      (1, Resolved (videoMessage 13 (Some (ascii ''done [JOB_ID: b1]'')) 9500) JobIdMethod 5)] \<and>
   totalFetched firstWriterWins defaultConfig (initial {})
     [Connect, Register (sampleRegistration (ascii ''a1'') 0 1000),
      LoopTurn (sampleCycle [videoMessage 10 (Some (ascii ''[JOB_ID: a1]'')) 2000,
                             videoMessage 11 None 2500, videoMessage 12 None 2600] 7000),
      Register (sampleRegistration (ascii ''b1'') 8000 9000),
      LoopTurn (sampleCycle [videoMessage 13 (Some (ascii ''done [JOB_ID: b1]'')) 9500,
                             videoMessage 10 (Some (ascii ''[JOB_ID: a1]'')) 2000] 14000)] = 5"
  using total_is_cumulative[of firstWriterWins defaultConfig "{}"
     "[Connect, Register (sampleRegistration (ascii ''a1'') 0 1000),
      LoopTurn (sampleCycle [videoMessage 10 (Some (ascii ''[JOB_ID: a1]'')) 2000,
                             videoMessage 11 None 2500, videoMessage 12 None 2600] 7000),
      Register (sampleRegistration (ascii ''b1'') 8000 9000),
      LoopTurn (sampleCycle [videoMessage 13 (Some (ascii ''done [JOB_ID: b1]'')) 9500,
                             videoMessage 10 (Some (ascii ''[JOB_ID: a1]'')) 2000] 14000)]" "[]"]
  by (simp add: run_defs sampleRegistration_def fetchedBy_def)

section \<open>The timeout sweep\<close>

lemma attemptAssignment_effect:
  "(pendingJobs (snd (attemptAssignment reserve s jb info meth)) = pendingJobs s \<and>
    settled (snd (attemptAssignment reserve s jb info meth)) = settled s) \<or>
   (pendingJobs (snd (attemptAssignment reserve s jb info meth))
      = AList.delete (jobId jb) (pendingJobs s) \<and>
    settled (snd (attemptAssignment reserve s jb info meth))
      = settled s @ [(future jb, Resolved (message info) meth (totalMessagesScanned s))])"
  by (auto simp: attemptAssignment_def Let_def split: prod.splits sum.splits bool.splits)

lemma tracked_attempt:
  assumes t: "tracked k job s" and p: "isPending s jb"
  shows "tracked k job (snd (attemptAssignment reserve s jb info meth))"
proof -
  let ?s' = "snd (attemptAssignment reserve s jb info meth)"
  have wk: "wellKeyed s" using t by (simp add: tracked_def)
  have wk': "wellKeyed ?s'" by (rule wellKeyed_attempt[OF wk])
  from attemptAssignment_effect[of reserve s jb info meth] show ?thesis
  proof
    assume "pendingJobs ?s' = pendingJobs s \<and> settled ?s' = settled s"
    then show ?thesis using t wk' by (simp add: tracked_def)
  next
    assume d: "pendingJobs ?s' = AList.delete (jobId jb) (pendingJobs s) \<and>
      settled ?s' = settled s @ [(future jb, Resolved (message info) meth (totalMessagesScanned s))]"
    show ?thesis
    proof (cases "jobId jb = k")
      case False
      then have "map_of (pendingJobs ?s') k = map_of (pendingJobs s) k"
        using d by (simp add: delete_conv)
      moreover have "set (settled s) \<subseteq> set (settled ?s')" using d by auto
      ultimately show ?thesis using t wk' unfolding tracked_def by auto
    next
      case True
      have none: "map_of (pendingJobs ?s') k = None" using d True by (simp add: delete_conv)
      from t show ?thesis unfolding tracked_def
      proof (elim conjE disjE exE)
        fix job'
        assume a: "map_of (pendingJobs s) k = Some job'" "future job' = future job"
        have "job' = jb" using p a(1) True by (simp add: isPending_def)
        then have "(future job, Resolved (message info) meth (totalMessagesScanned s))
                     \<in> set (settled ?s')"
          using d a(2) by simp
        then show "wellKeyed ?s' \<and>
          ((\<exists>job'. map_of (pendingJobs ?s') k = Some job' \<and> future job' = future job \<and>
              deadline job' = deadline job) \<or>
           (map_of (pendingJobs ?s') k = None \<and>
            (\<exists>m meth n. (future job, Resolved m meth n) \<in> set (settled ?s'))))"
          using wk' none by blast
      next
        fix m meth' n
        assume "(future job, Resolved m meth' n) \<in> set (settled s)"
        then have "(future job, Resolved m meth' n) \<in> set (settled ?s')" using d by simp
        then show "wellKeyed ?s' \<and>
          ((\<exists>job'. map_of (pendingJobs ?s') k = Some job' \<and> future job' = future job \<and>
              deadline job' = deadline job) \<or>
           (map_of (pendingJobs ?s') k = None \<and>
            (\<exists>m meth n. (future job, Resolved m meth n) \<in> set (settled ?s'))))"
          using wk' none by blast
      qed
    qed
  qed
qed

lemma collect_lookup:
  "map_of (pendingJobs (snd (collectFallbackReadyJobs cfg s))) k
     = map_option (\<lambda>job. job\<lparr>pollCount := pollCount job + 1\<rparr>) (map_of (pendingJobs s) k)"
  by (simp add: collectFallbackReadyJobs_def Let_def map_of_map)

lemma tracked_collect:
  assumes t: "tracked k job s"
  shows "tracked k job (snd (collectFallbackReadyJobs cfg s))"
proof -
  have wk: "wellKeyed (snd (collectFallbackReadyJobs cfg s))"
    using collect_wellKeyed[of s cfg] t by (simp add: tracked_def)
  have st: "settled (snd (collectFallbackReadyJobs cfg s)) = settled s"
    by (simp add: collectFallbackReadyJobs_def Let_def)
  show ?thesis
    using t wk unfolding tracked_def collect_lookup st by auto
qed

lemma timeoutLoop_keeps:
  "set (settled s) \<subseteq> set (settled (timeoutLoop now s jobs)) \<and>
   (map_of (pendingJobs s) k = None \<longrightarrow> map_of (pendingJobs (timeoutLoop now s jobs)) k = None)"
proof (induction jobs arbitrary: s)
  case Nil
  show ?case by simp
next
  case (Cons job jobs)
  show ?case
  proof (cases "now > deadline job")
    case False
    then show ?thesis using Cons.IH[of s] by simp
  next
    case True
    have "set (settled s) \<subseteq> set (settled (rejectJob s job))"
      by (auto simp: rejectJob_def)
    moreover have "map_of (pendingJobs s) k = None \<longrightarrow> map_of (pendingJobs (rejectJob s job)) k = None"
      by (simp add: rejectJob_def delete_conv)
    ultimately show ?thesis
      using Cons.IH[of "rejectJob s job"] True
      unfolding timeoutLoop_rejectJob by auto
  qed
qed

lemma timeoutLoop_expired:
  assumes "j \<in> set jobs" and "deadline j < now"
  shows "(future j, Rejected (jobId j)) \<in> set (settled (timeoutLoop now s jobs)) \<and>
         map_of (pendingJobs (timeoutLoop now s jobs)) (jobId j) = None"
  using assms
proof (induction jobs arbitrary: s)
  case Nil
  then show ?case by simp
next
  case (Cons job jobs)
  show ?case
  proof (cases "j = job")
    case True
    have "(future j, Rejected (jobId j)) \<in> set (settled (rejectJob s j))"
      "map_of (pendingJobs (rejectJob s j)) (jobId j) = None"
      by (simp_all add: rejectJob_def delete_conv)
    then have "(future j, Rejected (jobId j)) \<in> set (settled (timeoutLoop now (rejectJob s j) jobs)) \<and>
         map_of (pendingJobs (timeoutLoop now (rejectJob s j) jobs)) (jobId j) = None"
      using timeoutLoop_keeps[of "rejectJob s j" now jobs "jobId j"] by blast
    then show ?thesis using True Cons.prems(2) unfolding timeoutLoop_rejectJob by simp
  next
    case False
    then have "j \<in> set jobs" using Cons.prems(1) by simp
    from Cons.IH[OF this Cons.prems(2)] show ?thesis
      unfolding timeoutLoop_rejectJob by simp
  qed
qed

lemma sweep_settles:
  assumes t: "tracked k job s" and late: "deadline job < now"
  shows "map_of (pendingJobs (checkPendingTimeouts now s)) k = None \<and>
         ((future job, Rejected k) \<in> set (settled (checkPendingTimeouts now s)) \<or>
          (\<exists>m meth n. (future job, Resolved m meth n)
              \<in> set (settled (checkPendingTimeouts now s))))"
proof -
  have wk: "wellKeyed s" using t by (simp add: tracked_def)
  from t show ?thesis unfolding tracked_def
  proof (elim conjE disjE exE)
    fix job'
    assume a: "map_of (pendingJobs s) k = Some job'" "future job' = future job"
      "deadline job' = deadline job"
    have k: "jobId job' = k" using wellKeyed_lookup[OF wk a(1)] by simp
    have "(k, job') \<in> set (pendingJobs s)" using a(1) by (rule map_of_SomeD)
    then have "job' \<in> set (map snd (pendingJobs s))" by force
    from timeoutLoop_expired[OF this, of now s] late a(2,3) k
    show ?thesis by (simp add: checkPendingTimeouts_def)
  next
    fix m meth n
    assume a: "map_of (pendingJobs s) k = None" "(future job, Resolved m meth n) \<in> set (settled s)"
    from timeoutLoop_keeps[of s now "map snd (pendingJobs s)" k] a
    show ?thesis unfolding checkPendingTimeouts_def by blast
  qed
qed

lemma tracked_start:
  assumes "wellKeyed s" and "(k, job) \<in> set (pendingJobs s)"
  shows "tracked k job (s\<lparr>totalMessagesScanned := n\<rparr>)"
proof -
  have "map_of (pendingJobs s) k = Some job"
    using assms by (simp add: wellKeyed_def)
  then show ?thesis using assms(1) by (simp add: tracked_def wellKeyed_def)
qed

text \<open>
  C5, amended. Phases A and B run before the sweep, and an exception of the fetch or of
  the gate ends the cycle before it. For a job whose deadline is before the clock of the
  sweep, when the cycle runs to its end the job has left the registry and is settled: with
  a timeout failure, unless phase A or B bound it to a message earlier in the same cycle;
  with a timeout failure in particular when the batch holds no video message.
\<close>
theorem timeout_by_end_of_cycle:
  assumes wk: "wellKeyed s" and cl: "currentClient s" and fe: "fetched inp = Inr messages"
    and ok: "fst (pollOnce reserve cfg s inp) = None"
    and mem: "(k, job) \<in> set (pendingJobs s)"
    and late: "deadline job < sweepClock inp"
  shows "map_of (pendingJobs (snd (pollOnce reserve cfg s inp))) k = None \<and>
         ((future job, Rejected k) \<in> set (settled (snd (pollOnce reserve cfg s inp))) \<or>
          (\<exists>m meth n. (future job, Resolved m meth n)
              \<in> set (settled (snd (pollOnce reserve cfg s inp))))) \<and>
         (filterVideoMessages (scanClock inp) messages = [] \<longrightarrow>
            (future job, Rejected k) \<in> set (settled (snd (pollOnce reserve cfg s inp))))"
proof -
  let ?s1 = "s\<lparr>totalMessagesScanned := totalMessagesScanned s + length messages\<rparr>"
  let ?vms = "filterVideoMessages (scanClock inp) messages"
  obtain r2 s2 where m: "matchMessagesByJobId reserve ?s1 ?vms = (r2, s2)"
    by (cases "matchMessagesByJobId reserve ?s1 ?vms")
  obtain ready s3 where c: "collectFallbackReadyJobs cfg s2 = (ready, s3)"
    by (cases "collectFallbackReadyJobs cfg s2")
  obtain r4 s4 where f: "processFallbackMatches reserve cfg s3 ?vms ready = (r4, s4)"
    by (cases "processFallbackMatches reserve cfg s3 ?vms ready")
  have r2: "r2 = None"
    using ok cl fe m by (auto simp: pollOnce_def Let_def split: option.splits)
  have r4: "r4 = None"
    using ok cl fe m c f r2 by (auto simp: pollOnce_def Let_def split: option.splits)
  have res: "snd (pollOnce reserve cfg s inp) = checkPendingTimeouts (sweepClock inp) s4"
    using cl fe m c f r2 r4 by (simp add: pollOnce_def Let_def)
  have t1: "tracked k job ?s1" by (rule tracked_start[OF wk mem])
  have wkt: "\<And>s'. tracked k job s' \<Longrightarrow> wellKeyed s'" by (simp add: tracked_def)
  have t2: "tracked k job s2"
    using matchMessagesByJobId_preserves[of "tracked k job" reserve ?s1 ?vms,
        OF tracked_attempt wkt t1] m by simp
  have t3: "tracked k job s3" using tracked_collect[OF t2, of cfg] c by simp
  have rd: "\<forall>jb \<in> set ready. isPending s3 jb" "distinct (map jobId ready)"
    using collect_wellKeyed[OF wkt[OF t2], of cfg] c by simp_all
  have t4: "tracked k job s4"
    using processFallbackMatches_preserves[of "tracked k job" reserve s3 ready cfg ?vms,
        OF tracked_attempt t3 rd] f by simp
  have main: "map_of (pendingJobs (snd (pollOnce reserve cfg s inp))) k = None \<and>
         ((future job, Rejected k) \<in> set (settled (snd (pollOnce reserve cfg s inp))) \<or>
          (\<exists>m meth n. (future job, Resolved m meth n)
              \<in> set (settled (snd (pollOnce reserve cfg s inp)))))"
    unfolding res by (rule sweep_settles[OF t4 late])
  have empty: "(future job, Rejected k) \<in> set (settled (snd (pollOnce reserve cfg s inp)))"
    if e: "?vms = []"
  proof -
    have "s2 = ?s1" using m e by simp
    moreover have "s4 = s3"
      using f e by (auto simp: processFallbackMatches_def Let_def split: if_splits)
    ultimately have s4: "s4 = snd (collectFallbackReadyJobs cfg ?s1)" using c by simp
    have "map_of (pendingJobs ?s1) k = Some job" using wk mem by (simp add: wellKeyed_def)
    then have l: "map_of (pendingJobs s4) k = Some (job\<lparr>pollCount := pollCount job + 1\<rparr>)"
      unfolding s4 collect_lookup by simp
    have k: "jobId (job\<lparr>pollCount := pollCount job + 1\<rparr>) = k"
      using wellKeyed_member[OF wk mem] by simp
    have "(k, job\<lparr>pollCount := pollCount job + 1\<rparr>) \<in> set (pendingJobs s4)"
      using l by (rule map_of_SomeD)
    then have "job\<lparr>pollCount := pollCount job + 1\<rparr> \<in> set (map snd (pendingJobs s4))"
      by force
    from timeoutLoop_expired[OF this, of "sweepClock inp" s4] late k
    show ?thesis unfolding res checkPendingTimeouts_def by simp
  qed
  from main empty show ?thesis by blast
qed

theorem timeout_by_end_of_cycle_counterexample:
  "deadline (sampleJob (ascii ''a1'') 0 1000 0 0)
     < sweepClock (sampleCycle [videoMessage 10 (Some (ascii ''[JOB_ID: a1]'')) 1850000] 1900000) \<and>
   pendingJobs (sampleState [sampleJob (ascii ''a1'') 0 1000 0 0] {})
     = [(ascii ''a1'', sampleJob (ascii ''a1'') 0 1000 0 0)] \<and>
   pollOnce firstWriterWins defaultConfig (sampleState [sampleJob (ascii ''a1'') 0 1000 0 0] {})
       (sampleCycle [videoMessage 10 (Some (ascii ''[JOB_ID: a1]'')) 1850000] 1900000)
     = (None, (sampleState [] {10})
          \<lparr> reservedMessageIds := {10}, totalMessagesScanned := 1, promises := 1,
            claims := [(10, ascii ''a1'', JobIdMethod)],
            settled := [(0, Resolved (videoMessage 10 (Some (ascii ''[JOB_ID: a1]'')) 1850000)
                              JobIdMethod 1)] \<rparr>) \<and>
   pollOnce firstWriterWins defaultConfig (sampleState [sampleJob (ascii ''a1'') 0 1000 0 0] {})
       \<lparr> fetched = Inl FetchFailed, scanClock = 1900000, sweepClock = 1900000 \<rparr>
     = (Some FetchFailed, sampleState [sampleJob (ascii ''a1'') 0 1000 0 0] {})"
  by (simp add: run_defs)

theorem timeout_by_end_of_cycle_witness:
  "(ascii ''a1'', sampleJob (ascii ''a1'') 0 1000 0 0)
      \<in> set (pendingJobs (sampleState [sampleJob (ascii ''a1'') 0 1000 0 0] {})) \<and>
   deadline (sampleJob (ascii ''a1'') 0 1000 0 0)
     < sweepClock (sampleCycle [videoMessage 11 None 1000000] 1900000) \<and>
   fst (pollOnce firstWriterWins defaultConfig (sampleState [sampleJob (ascii ''a1'') 0 1000 0 0] {})
       (sampleCycle [videoMessage 11 None 1000000] 1900000)) = None \<and>
   map_of (pendingJobs (snd (pollOnce firstWriterWins defaultConfig
       (sampleState [sampleJob (ascii ''a1'') 0 1000 0 0] {})
       (sampleCycle [videoMessage 11 None 1000000] 1900000)))) (ascii ''a1'') = None \<and>
   settled (snd (pollOnce firstWriterWins defaultConfig
       (sampleState [sampleJob (ascii ''a1'') 0 1000 0 0] {})
       (sampleCycle [videoMessage 11 None 1000000] 1900000))) = [(0, Rejected (ascii ''a1''))]"
  using timeout_by_end_of_cycle[of "sampleState [sampleJob (ascii ''a1'') 0 1000 0 0] {}"
      "sampleCycle [videoMessage 11 None 1000000] 1900000" "[videoMessage 11 None 1000000]"
      firstWriterWins defaultConfig "ascii ''a1''" "sampleJob (ascii ''a1'') 0 1000 0 0"]
  by (simp add: run_defs wellKeyed_def)

section \<open>One loop at a time\<close>

lemma sameLoop_attempt:
  assumes "sameLoop s0 s"
  shows "sameLoop s0 (snd (attemptAssignment reserve s job info meth))"
proof -
  have "pollerRunning (snd (attemptAssignment reserve s job info meth)) = pollerRunning s \<and>
        loopInstances (snd (attemptAssignment reserve s job info meth)) = loopInstances s"
    by (auto simp: attemptAssignment_def Let_def split: prod.splits sum.splits bool.splits)
  then show ?thesis
    using assms wellKeyed_attempt[of s reserve job info meth] by (simp add: sameLoop_def)
qed

lemma sameLoop_reject:
  assumes "sameLoop s0 s"
  shows "sameLoop s0 (rejectJob s job)"
  using assms wellKeyed_reject[of s job] by (simp add: sameLoop_def rejectJob_def)

lemma sameLoop_collect:
  assumes "sameLoop s0 s"
  shows "sameLoop s0 (snd (collectFallbackReadyJobs cfg s))"
  using assms collect_wellKeyed[of s cfg]
  by (simp add: sameLoop_def collectFallbackReadyJobs_def Let_def)

lemma pollOnce_sameLoop:
  assumes wk: "wellKeyed s"
  shows "sameLoop s (snd (pollOnce reserve cfg s inp))"
proof (rule pollOnce_preserves[of "sameLoop s" reserve cfg s inp])
  show "sameLoop s (snd (attemptAssignment reserve s' job info meth))"
    if "sameLoop s s'" "isPending s' job" for s' job info meth
    using that(1) by (rule sameLoop_attempt)
  show "sameLoop s (rejectJob s' job)" if "sameLoop s s'" "isPending s' job" for s' job
    using that(1) by (rule sameLoop_reject)
  show "sameLoop s (snd (collectFallbackReadyJobs cfg s'))" if "sameLoop s s'" for s'
    using that by (rule sameLoop_collect)
  show "wellKeyed s'" if "sameLoop s s'" for s'
    using that by (simp add: sameLoop_def)
  show "sameLoop s (s\<lparr>totalMessagesScanned := totalMessagesScanned s + length messages\<rparr>)"
    for messages
    using wk by (simp add: sameLoop_def wellKeyed_def)
  show "sameLoop s s" using wk by (simp add: sameLoop_def)
qed

lemma register_loops:
  assumes "loopsOk s"
  shows "loopsOk (snd (waitForVideoViaPoller s r))"
  using assms
  by (auto simp: loopsOk_def waitForVideoViaPoller_def ensureAssignmentsCache_def
      ensurePolling_def Let_def split: option.splits sum.splits prod.splits if_splits)

lemma loopsOk_step:
  assumes l: "loopsOk s" and wk: "wellKeyed s"
  shows "loopsOk (step reserve cfg s ev)"
proof (cases ev)
  case Connect
  then show ?thesis using l by (simp add: step_def setCurrentClient_def loopsOk_def)
next
  case (Register r)
  then show ?thesis using register_loops[OF l] by (simp add: step_def)
next
  case LoopFatal
  then show ?thesis using l by (auto simp: step_def pollLoopFatal_def loopsOk_def)
next
  case (LoopTurn inp)
  have "loopsOk (snd (pollOnce reserve cfg s inp))"
    using pollOnce_sameLoop[OF wk, of reserve cfg inp] l by (simp add: sameLoop_def loopsOk_def)
  then show ?thesis using LoopTurn l
    by (auto simp: step_def pollLoopTurn_def loopsOk_def)
qed

lemma loopsOk_run:
  "loopsOk s \<Longrightarrow> consistent s \<Longrightarrow> loopsOk (run reserve cfg s evs)"
proof (induction evs arbitrary: s)
  case Nil
  then show ?case by (simp add: run_def)
next
  case (Cons ev evs)
  have "loopsOk (step reserve cfg s ev)"
    by (rule loopsOk_step[OF Cons.prems(1) consistent_wellKeyed[OF Cons.prems(2)]])
  from Cons.IH[OF this consistent_step[OF Cons.prems(2)]] show ?case
    by (simp add: run_Cons)
qed

lemma one_loop_at_a_time: "loopInstances (run reserve cfg (initial e) evs) \<le> 1"
proof -
  have "loopsOk (initial e)" by (simp add: loopsOk_def initial_def)
  from loopsOk_run[OF this consistent_initial] show ?thesis by (simp add: loopsOk_def)
qed

text \<open>
  C3. In every run from the initial state at most one invocation of \<open>pollLoop\<close> is alive;
  \<open>ensurePolling\<close> does nothing when the flag is set and starts one invocation when it is
  clear. But the handler of a rejected \<open>pollLoop\<close> (line 275) only logs, while the normal
  exit (line 289) clears the flag: in the run below, registrations before and after a fatal
  exit leave two jobs pending, the flag set and no invocation alive, and a later turn of
  the loop finds no loop to run. A registration after a fatal exit does not restart the loop.
\<close>
theorem loop_not_restarted_after_fatal:
  "loopInstances (run reserve cfg (initial e) evs) \<le> 1 \<and>
   ensurePolling (s\<lparr>pollerRunning := True\<rparr>) = s\<lparr>pollerRunning := True\<rparr> \<and>
   loopInstances (ensurePolling (s\<lparr>pollerRunning := False\<rparr>)) = loopInstances s + 1 \<and>
   run firstWriterWins defaultConfig (initial {})
       [Connect, Register (sampleRegistration (ascii ''a1'') 0 1000), LoopFatal,
        Register (sampleRegistration (ascii ''b1'') 2000 3000),
        LoopTurn (sampleCycle [videoMessage 10 (Some (ascii ''[JOB_ID: b1]'')) 4000] 10000)]
     = (initial {})
         \<lparr> pendingJobs :=
             [(ascii ''a1'', \<lparr> jobId = ascii ''a1'', requestMessageId = 1, jobCreatedAt = 0,
                               sentAt = 1000, deadline = 1801000, pollCount = 0, future = 0 \<rparr>),
              (ascii ''b1'', \<lparr> jobId = ascii ''b1'', requestMessageId = 1, jobCreatedAt = 2000,
                               sentAt = 3000, deadline = 1803000, pollCount = 0, future = 1 \<rparr>)],
           currentClient := True, pollerRunning := True, assignmentsCacheLoaded := True,
           promises := 2, loopInstances := 0 \<rparr>"
proof (intro conjI)
  show "loopInstances (run reserve cfg (initial e) evs) \<le> 1" by (rule one_loop_at_a_time)
  show "ensurePolling (s\<lparr>pollerRunning := True\<rparr>) = s\<lparr>pollerRunning := True\<rparr>"
    by (simp add: ensurePolling_def)
  show "loopInstances (ensurePolling (s\<lparr>pollerRunning := False\<rparr>)) = loopInstances s + 1"
    by (simp add: ensurePolling_def)
  show "run firstWriterWins defaultConfig (initial {})
       [Connect, Register (sampleRegistration (ascii ''a1'') 0 1000), LoopFatal,
        Register (sampleRegistration (ascii ''b1'') 2000 3000),
        LoopTurn (sampleCycle [videoMessage 10 (Some (ascii ''[JOB_ID: b1]'')) 4000] 10000)]
     = (initial {})
         \<lparr> pendingJobs :=
             [(ascii ''a1'', \<lparr> jobId = ascii ''a1'', requestMessageId = 1, jobCreatedAt = 0,
                               sentAt = 1000, deadline = 1801000, pollCount = 0, future = 0 \<rparr>),
              (ascii ''b1'', \<lparr> jobId = ascii ''b1'', requestMessageId = 1, jobCreatedAt = 2000,
                               sentAt = 3000, deadline = 1803000, pollCount = 0, future = 1 \<rparr>)],
           currentClient := True, pollerRunning := True, assignmentsCacheLoaded := True,
           promises := 2, loopInstances := 0 \<rparr>"
    by (simp add: run_defs sampleRegistration_def)
qed

section \<open>What the fallback phase proposes\<close>

lemma proposalsOk_more_jobs:
  "proposalsOk cfg pool jobs reserved new \<Longrightarrow> set jobs \<subseteq> set jobs' \<Longrightarrow>
     proposalsOk cfg pool jobs' reserved new"
  by (induction new arbitrary: reserved) (auto 4 3)

lemma proposalsOk_split:
  "proposalsOk cfg pool jobs reserved new \<Longrightarrow> new = pre @ (messageId, jid, meth) # post \<Longrightarrow>
     meth = TimestampMethod \<and>
     (\<exists>job \<in> set jobs. \<exists>c. jid = jobId job \<and> msgId (message c) = messageId \<and>
         bestFor cfg pool (reserved \<union> fst ` set pre) job c)"
proof (induction pre arbitrary: reserved new)
  case Nil
  then show ?case by simp
next
  case (Cons x pre)
  obtain i j m where x: "x = (i, j, m)" by (cases x)
  have "proposalsOk cfg pool jobs (insert i reserved) (pre @ (messageId, jid, meth) # post)"
    using Cons.prems x by simp
  from Cons.IH[OF this refl] show ?case using x by simp
qed

lemma proposalsOk_member:
  "proposalsOk cfg pool jobs reserved new \<Longrightarrow> (messageId, jid, meth) \<in> set new \<Longrightarrow>
     meth = TimestampMethod \<and> (\<exists>job \<in> set jobs. jid = jobId job)"
proof -
  assume a: "proposalsOk cfg pool jobs reserved new" and b: "(messageId, jid, meth) \<in> set new"
  from b obtain pre post where "new = pre @ (messageId, jid, meth) # post"
    by (meson split_list)
  from proposalsOk_split[OF a this] show ?thesis by blast
qed

lemma attemptAssignment_claims:
  "\<exists>new. claims (snd (attemptAssignment reserve s job info meth)) = claims s @ new \<and>
         (new = [] \<or> new = [(msgId (message info), jobId job, meth)]) \<and>
         (msgId (message info) \<notin> reservedMessageIds s \<longrightarrow> new \<noteq> []) \<and>
         (fst (attemptAssignment reserve s job info meth) = None \<longrightarrow>
            reservedMessageIds (snd (attemptAssignment reserve s job info meth))
              = reservedMessageIds s \<union> fst ` set new)"
  by (auto simp: attemptAssignment_def Let_def split: prod.splits sum.splits bool.splits)

lemma fallbackLoop_proposals:
  assumes "set pool \<subseteq> set F"
    and "\<forall>c' \<in> set F. msgId (message c') \<notin> reservedMessageIds s \<longrightarrow> c' \<in> set pool"
  shows "\<exists>new. claims (snd (fallbackLoop reserve cfg s pool jobs)) = claims s @ new \<and>
           proposalsOk cfg F jobs (reservedMessageIds s) new"
  using assms
proof (induction jobs arbitrary: s pool)
  case Nil
  show ?case by simp
next
  case (Cons job jobs)
  let ?W = "FALLBACK_WINDOW_MS cfg"
  let ?R = "reservedMessageIds s"
  let ?t = "targetTimestamp job"
  show ?case
  proof (cases "selectCandidate ?W ?R ?t pool None")
    case None
    from Cons.IH[OF Cons.prems] obtain new where
      n: "claims (snd (fallbackLoop reserve cfg s pool jobs)) = claims s @ new"
         "proposalsOk cfg F jobs ?R new" by blast
    have "proposalsOk cfg F (job # jobs) ?R new"
      by (rule proposalsOk_more_jobs[OF n(2)]) auto
    then show ?thesis using None n(1) by auto
  next
    case (Some sel)
    obtain c d where sel: "sel = (c, d)" by (cases sel)
    have sc: "selectCandidate ?W ?R ?t pool None = Some (c, d)" using Some sel by simp
    have o: "c \<in> set pool" "msgId (message c) \<notin> ?R" "d = \<bar>dateMs c - ?t\<bar>" "d \<le> ?W"
      using selectCandidate_origin[OF sc] by simp_all
    have l: "\<forall>c' \<in> set pool. msgId (message c') \<notin> ?R \<and> \<bar>dateMs c' - ?t\<bar> \<le> ?W
               \<longrightarrow> d \<le> \<bar>dateMs c' - ?t\<bar>"
      using selectCandidate_least[OF sc] by simp
    have best: "bestFor cfg F ?R job c"
      unfolding bestFor_def
    proof (intro conjI ballI impI)
      show "c \<in> set F" using o(1) Cons.prems(1) by blast
      show "msgId (message c) \<notin> ?R" by (rule o(2))
      show "\<bar>dateMs c - ?t\<bar> \<le> ?W" using o(3,4) by simp
      fix c' assume c': "c' \<in> set F"
        "msgId (message c') \<notin> ?R \<and> \<bar>dateMs c' - ?t\<bar> \<le> ?W"
      then have "c' \<in> set pool" using Cons.prems(2) by blast
      then show "\<bar>dateMs c - ?t\<bar> \<le> \<bar>dateMs c' - ?t\<bar>" using l c'(2) o(3) by blast
    qed
    obtain r1 s1 where a: "attemptAssignment reserve s job c TimestampMethod = (r1, s1)"
      by (cases "attemptAssignment reserve s job c TimestampMethod")
    let ?x = "(msgId (message c), jobId job, TimestampMethod)"
    have cl1: "claims s1 = claims s @ [?x]"
      and rs1: "r1 = None \<longrightarrow> reservedMessageIds s1 = insert (msgId (message c)) ?R"
      using attemptAssignment_claims[of reserve s job c TimestampMethod] a o(2) by auto
    have head: "meth = TimestampMethod \<and>
        (\<exists>job' \<in> set (job # jobs). \<exists>c'. jobId job = jobId job' \<and>
            msgId (message c') = msgId (message c) \<and> bestFor cfg F ?R job' c')"
      if "meth = TimestampMethod" for meth
      using that best by auto
    show ?thesis
    proof (cases r1)
      case (Some e)
      have "fallbackLoop reserve cfg s pool (job # jobs) = (Some e, s1)"
        using sc a Some by simp
      moreover have "proposalsOk cfg F (job # jobs) ?R [?x]"
        using best by auto
      ultimately show ?thesis using cl1 by auto
    next
      case None
      have r: "reservedMessageIds s1 = insert (msgId (message c)) ?R" using rs1 None by simp
      have p1: "set (remove1 c pool) \<subseteq> set F"
        using Cons.prems(1) set_remove1_subset[of c pool] by blast
      have p2: "\<forall>c' \<in> set F. msgId (message c') \<notin> reservedMessageIds s1
                  \<longrightarrow> c' \<in> set (remove1 c pool)"
      proof (intro ballI impI)
        fix c' assume c': "c' \<in> set F" "msgId (message c') \<notin> reservedMessageIds s1"
        then have "c' \<in> set pool" using Cons.prems(2) r by auto
        moreover have "c' \<noteq> c" using c'(2) r by auto
        ultimately show "c' \<in> set (remove1 c pool)" by simp
      qed
      from Cons.IH[OF p1 p2] obtain new where
        n: "claims (snd (fallbackLoop reserve cfg s1 (remove1 c pool) jobs)) = claims s1 @ new"
           "proposalsOk cfg F jobs (reservedMessageIds s1) new" by blast
      have "proposalsOk cfg F (job # jobs) (insert (msgId (message c)) ?R) new"
        using proposalsOk_more_jobs[OF n(2), of "job # jobs"] r by auto
      then have ok: "proposalsOk cfg F (job # jobs) ?R (?x # new)"
        using best by auto
      have "fallbackLoop reserve cfg s pool (job # jobs)
              = fallbackLoop reserve cfg s1 (remove1 c pool) jobs"
        using sc a None by simp
      then have "claims (snd (fallbackLoop reserve cfg s pool (job # jobs))) = claims s @ (?x # new)"
        using n(1) cl1 by simp
      then show ?thesis using ok by blast
    qed
  qed
qed

lemma processFallbackMatches_proposals:
  "\<exists>new. claims (snd (processFallbackMatches reserve cfg s vms jobs)) = claims s @ new \<and>
         proposalsOk cfg (filter (\<lambda>info. \<not> hasMark (jobIdMark info)) vms) jobs
           (reservedMessageIds s) new"
proof -
  let ?F = "filter (\<lambda>info. \<not> hasMark (jobIdMark info)) vms"
  have "\<exists>new. claims (snd (fallbackLoop reserve cfg s ?F jobs)) = claims s @ new \<and>
           proposalsOk cfg ?F jobs (reservedMessageIds s) new"
    by (rule fallbackLoop_proposals) simp_all
  moreover have "proposalsOk cfg ?F jobs (reservedMessageIds s) []" by simp
  ultimately show ?thesis
    by (auto simp: processFallbackMatches_def Let_def)
qed

lemma matchMessagesByJobId_claims:
  "\<exists>new. claims (snd (matchMessagesByJobId reserve s vms)) = claims s @ new \<and>
         (\<forall>x \<in> set new. snd (snd x) = JobIdMethod) \<and>
         (fst (matchMessagesByJobId reserve s vms) = None \<longrightarrow>
            reservedMessageIds (snd (matchMessagesByJobId reserve s vms))
              = reservedMessageIds s \<union> fst ` set new)"
proof (induction vms arbitrary: s)
  case Nil
  show ?case by simp
next
  case (Cons info rest)
  show ?case
  proof (cases "hasMark (jobIdMark info)")
    case False
    then show ?thesis using Cons.IH[of s] by simp
  next
    case True
    show ?thesis
    proof (cases "map_of (pendingJobs s) (the (jobIdMark info))")
      case None
      then show ?thesis using True Cons.IH[of s] by simp
    next
      case (Some pending)
      obtain r1 s1 where a: "attemptAssignment reserve s pending info JobIdMethod = (r1, s1)"
        by (cases "attemptAssignment reserve s pending info JobIdMethod")
      from attemptAssignment_claims[of reserve s pending info JobIdMethod] a
      obtain new1 where n1: "claims s1 = claims s @ new1"
        "new1 = [] \<or> new1 = [(msgId (message info), jobId pending, JobIdMethod)]"
        "r1 = None \<longrightarrow> reservedMessageIds s1 = reservedMessageIds s \<union> fst ` set new1"
        by auto
      have m1: "\<forall>x \<in> set new1. snd (snd x) = JobIdMethod" using n1(2) by auto
      show ?thesis
      proof (cases r1)
        case (Some e)
        have "matchMessagesByJobId reserve s (info # rest) = (Some e, s1)"
          using True \<open>map_of (pendingJobs s) (the (jobIdMark info)) = Some pending\<close> a Some
          by simp
        then show ?thesis using n1(1) m1 by auto
      next
        case None
        from Cons.IH[of s1] obtain new2 where
          n2: "claims (snd (matchMessagesByJobId reserve s1 rest)) = claims s1 @ new2"
              "\<forall>x \<in> set new2. snd (snd x) = JobIdMethod"
              "fst (matchMessagesByJobId reserve s1 rest) = None \<longrightarrow>
                 reservedMessageIds (snd (matchMessagesByJobId reserve s1 rest))
                   = reservedMessageIds s1 \<union> fst ` set new2"
          by (elim exE conjE)
        have eq: "matchMessagesByJobId reserve s (info # rest) = matchMessagesByJobId reserve s1 rest"
          using True Some a None by simp
        have 1: "claims (snd (matchMessagesByJobId reserve s (info # rest)))
                   = claims s @ (new1 @ new2)"
          using eq n1(1) n2(1) by simp
        have 2: "\<forall>x \<in> set (new1 @ new2). snd (snd x) = JobIdMethod" using m1 n2(2) by auto
        have 3: "fst (matchMessagesByJobId reserve s (info # rest)) = None \<longrightarrow>
            reservedMessageIds (snd (matchMessagesByJobId reserve s (info # rest)))
              = reservedMessageIds s \<union> fst ` set (new1 @ new2)"
          using eq n1(3) n2(3) None by auto
        show ?thesis
          by (rule exI[of _ "new1 @ new2"], intro conjI) (rule 1 2 3)+
      qed
    qed
  qed
qed


lemma wellKeyed_map_of:
  "wellKeyed s \<Longrightarrow> (k, job) \<in> set (pendingJobs s) \<Longrightarrow> map_of (pendingJobs s) k = Some job"
  by (simp add: wellKeyed_def)

lemma wellKeyed_match:
  assumes "wellKeyed s"
  shows "wellKeyed (snd (matchMessagesByJobId reserve s vms))"
proof (rule matchMessagesByJobId_preserves[of wellKeyed reserve s vms])
  show "wellKeyed (snd (attemptAssignment reserve s' job info JobIdMethod))"
    if "wellKeyed s'" "isPending s' job" for s' :: "'a poller" and job info
    using that(1) by (rule wellKeyed_attempt)
  show "wellKeyed s'" if "wellKeyed s'" for s' :: "'a poller" by (rule that)
  show "wellKeyed s" by (rule assms)
qed

lemma collect_ready:
  assumes wk: "wellKeyed s" and r: "job' \<in> set (fst (collectFallbackReadyJobs cfg s))"
  shows "\<exists>job. map_of (pendingJobs s) (jobId job') = Some job \<and>
               job' = job\<lparr>pollCount := pollCount job + 1\<rparr> \<and>
               FALLBACK_POLLS_THRESHOLD cfg \<le> pollCount job + 1"
proof -
  from r obtain k job where m: "(k, job) \<in> set (pendingJobs s)"
    "job' = job\<lparr>pollCount := pollCount job + 1\<rparr>"
    "FALLBACK_POLLS_THRESHOLD cfg \<le> pollCount job'"
    by (auto simp: collectFallbackReadyJobs_def Let_def)
  have "jobId job = k" using wellKeyed_member[OF wk m(1)] by simp
  then have "map_of (pendingJobs s) (jobId job') = Some job"
    using wellKeyed_map_of[OF wk m(1)] m(2) by simp
  then show ?thesis using m(2,3) by auto
qed

lemma fallbackLoop_pending_subset:
  "set (pendingJobs (snd (fallbackLoop reserve cfg s pool jobs))) \<subseteq> set (pendingJobs s)"
proof (induction jobs arbitrary: s pool)
  case Nil
  show ?case by simp
next
  case (Cons job jobs)
  show ?case
  proof (cases "selectCandidate (FALLBACK_WINDOW_MS cfg) (reservedMessageIds s)
                  (targetTimestamp job) pool None")
    case None
    then show ?thesis using Cons.IH[of s pool] by simp
  next
    case (Some sel)
    obtain c d where sel: "sel = (c, d)" by (cases sel)
    obtain r1 s1 where a: "attemptAssignment reserve s job c TimestampMethod = (r1, s1)"
      by (cases "attemptAssignment reserve s job c TimestampMethod")
    have sub: "set (pendingJobs s1) \<subseteq> set (pendingJobs s)"
      using attemptAssignment_pending_subset[of reserve s job c TimestampMethod] a by simp
    show ?thesis
    proof (cases r1)
      case None
      then show ?thesis
        using Some sel a sub Cons.IH[of s1 "remove1 c pool"] by auto
    next
      case (Some e)
      then show ?thesis
        using \<open>selectCandidate (FALLBACK_WINDOW_MS cfg) (reservedMessageIds s)
                  (targetTimestamp job) pool None = Some sel\<close> sel a sub by auto
    qed
  qed
qed

lemma processFallbackMatches_pending_subset:
  "set (pendingJobs (snd (processFallbackMatches reserve cfg s vms jobs))) \<subseteq> set (pendingJobs s)"
  using fallbackLoop_pending_subset[of reserve cfg s _ jobs]
  by (simp add: processFallbackMatches_def Let_def)

lemma timeoutLoop_pending_subset:
  "set (pendingJobs (timeoutLoop now s jobs)) \<subseteq> set (pendingJobs s)"
proof (induction jobs arbitrary: s)
  case Nil
  show ?case by simp
next
  case (Cons job jobs)
  have "set (pendingJobs (rejectJob s job)) \<subseteq> set (pendingJobs s)"
    by (auto simp: rejectJob_def AList.delete_eq)
  then show ?case
    using Cons.IH[of s] Cons.IH[of "rejectJob s job"]
    unfolding timeoutLoop_rejectJob by auto
qed

text \<open>The calls of the gate in one cycle.\<close>

lemma cycle_proposals:
  assumes wk: "wellKeyed s" and fe: "fetched inp = Inr messages"
  shows "\<exists>ready newA newB.
           claims (snd (pollOnce reserve cfg s inp)) = claims s @ newA @ newB \<and>
           (\<forall>x \<in> set newA. snd (snd x) = JobIdMethod) \<and>
           proposalsOk cfg
             (filter (\<lambda>info. \<not> hasMark (jobIdMark info))
                (filterVideoMessages (scanClock inp) messages))
             ready (reservedMessageIds s \<union> fst ` set newA) newB \<and>
           (\<forall>job' \<in> set ready. \<exists>job. map_of (pendingJobs s) (jobId job') = Some job \<and>
               job' = job\<lparr>pollCount := pollCount job + 1\<rparr> \<and>
               FALLBACK_POLLS_THRESHOLD cfg \<le> pollCount job + 1)"
    (is "\<exists>ready newA newB. ?P ready newA newB")
proof (cases "currentClient s")
  case False
  then have "?P [] [] []" by (simp add: pollOnce_def)
  then show ?thesis by blast
next
  case True
  let ?s1 = "s\<lparr>totalMessagesScanned := totalMessagesScanned s + length messages\<rparr>"
  let ?vms = "filterVideoMessages (scanClock inp) messages"
  let ?F = "filter (\<lambda>info. \<not> hasMark (jobIdMark info)) ?vms"
  obtain r2 s2 where m: "matchMessagesByJobId reserve ?s1 ?vms = (r2, s2)"
    by (cases "matchMessagesByJobId reserve ?s1 ?vms")
  from matchMessagesByJobId_claims[of reserve ?s1 ?vms] m
  obtain newA where nA: "claims s2 = claims s @ newA"
    "\<forall>x \<in> set newA. snd (snd x) = JobIdMethod"
    "r2 = None \<longrightarrow> reservedMessageIds s2 = reservedMessageIds s \<union> fst ` set newA"
    by auto
  show ?thesis
  proof (cases r2)
    case (Some e)
    then have "snd (pollOnce reserve cfg s inp) = s2"
      using True fe m by (simp add: pollOnce_def Let_def)
    then have "?P [] newA []" using nA by simp
    then show ?thesis by blast
  next
    case None
    obtain ready s3 where c: "collectFallbackReadyJobs cfg s2 = (ready, s3)"
      by (cases "collectFallbackReadyJobs cfg s2")
    have s3: "claims s3 = claims s2" "reservedMessageIds s3 = reservedMessageIds s2"
      using c by (auto simp: collectFallbackReadyJobs_def Let_def)
    have wk1: "wellKeyed ?s1" using wk by (simp add: wellKeyed_def)
    have wk2: "wellKeyed s2" using wellKeyed_match[OF wk1, of reserve ?vms] m by simp
    have sub: "set (pendingJobs s2) \<subseteq> set (pendingJobs s)"
      using matchMessagesByJobId_pending_subset[of reserve ?s1 ?vms] m by simp
    have rd: "\<forall>job' \<in> set ready. \<exists>job. map_of (pendingJobs s) (jobId job') = Some job \<and>
               job' = job\<lparr>pollCount := pollCount job + 1\<rparr> \<and>
               FALLBACK_POLLS_THRESHOLD cfg \<le> pollCount job + 1"
    proof
      fix job' assume "job' \<in> set ready"
      then have "job' \<in> set (fst (collectFallbackReadyJobs cfg s2))" using c by simp
      from collect_ready[OF wk2 this] obtain job where
        j: "map_of (pendingJobs s2) (jobId job') = Some job"
           "job' = job\<lparr>pollCount := pollCount job + 1\<rparr>"
           "FALLBACK_POLLS_THRESHOLD cfg \<le> pollCount job + 1" by blast
      have "(jobId job', job) \<in> set (pendingJobs s)"
        using map_of_SomeD[OF j(1)] sub by blast
      from wellKeyed_map_of[OF wk this] j(2,3)
      show "\<exists>job. map_of (pendingJobs s) (jobId job') = Some job \<and>
               job' = job\<lparr>pollCount := pollCount job + 1\<rparr> \<and>
               FALLBACK_POLLS_THRESHOLD cfg \<le> pollCount job + 1" by blast
    qed
    obtain r4 s4 where f: "processFallbackMatches reserve cfg s3 ?vms ready = (r4, s4)"
      by (cases "processFallbackMatches reserve cfg s3 ?vms ready")
    from processFallbackMatches_proposals[of reserve cfg s3 ?vms ready] f
    obtain newB where nB: "claims s4 = claims s3 @ newB"
      "proposalsOk cfg ?F ready (reservedMessageIds s3) newB" by auto
    have fin: "claims (snd (pollOnce reserve cfg s inp)) = claims s4"
    proof (cases r4)
      case (Some e)
      then show ?thesis using True fe m None c f by (simp add: pollOnce_def Let_def)
    next
      case n4: None
      have "snd (pollOnce reserve cfg s inp) = checkPendingTimeouts (sweepClock inp) s4"
        using True fe m None c f n4 by (simp add: pollOnce_def Let_def)
      then show ?thesis
        using timeoutLoop_claims[of "sweepClock inp" s4 "map snd (pendingJobs s4)"]
        by (simp add: checkPendingTimeouts_def)
    qed
    have 1: "claims (snd (pollOnce reserve cfg s inp)) = claims s @ newA @ newB"
      using fin nB(1) s3(1) nA(1) by simp
    have 3: "proposalsOk cfg ?F ready (reservedMessageIds s \<union> fst ` set newA) newB"
      using nB(2) s3(2) nA(3) None by simp
    show ?thesis
      by (rule exI[of _ ready], rule exI[of _ newA], rule exI[of _ newB], intro conjI)
        (rule 1 nA(2) 3 rd)+
  qed
qed




lemma targetTimestamp_eq:
  "targetTimestamp job = (if sentAt job = 0 then jobCreatedAt job else sentAt job)"
  by (simp add: targetTimestamp_def)

lemma proposalsOk_within:
  assumes "proposalsOk cfg F jobs R new" and "(messageId, jid, meth) \<in> set new"
  shows "\<exists>job \<in> set jobs. \<exists>c \<in> set F. jid = jobId job \<and> msgId (message c) = messageId \<and>
           \<bar>dateMs c - targetTimestamp job\<bar> \<le> FALLBACK_WINDOW_MS cfg"
proof -
  from assms(2) obtain pre post where "new = pre @ (messageId, jid, meth) # post"
    by (meson split_list)
  from proposalsOk_split[OF assms(1) this] show ?thesis
    unfolding bestFor_def by blast
qed

lemma fallbackLoop_claims_grow:
  "\<exists>new. claims (snd (fallbackLoop reserve cfg s pool jobs)) = claims s @ new"
  using claimsStep_fallbackLoop[of reserve cfg s pool jobs] unfolding claimsStep_def by blast

lemma fallbackLoop_first_proposal:
  assumes "c \<in> set pool" and "msgId (message c) \<notin> reservedMessageIds s"
    and "\<bar>dateMs c - targetTimestamp job\<bar> \<le> FALLBACK_WINDOW_MS cfg"
  shows "\<exists>messageId rest. claims (snd (fallbackLoop reserve cfg s pool (job # jobs)))
           = claims s @ (messageId, jobId job, TimestampMethod) # rest"
proof (cases "selectCandidate (FALLBACK_WINDOW_MS cfg) (reservedMessageIds s)
                (targetTimestamp job) pool None")
  case None
  from selectCandidate_None[OF this] assms show ?thesis by auto
next
  case (Some sel)
  obtain c' d where sel: "sel = (c', d)" by (cases sel)
  have sc: "selectCandidate (FALLBACK_WINDOW_MS cfg) (reservedMessageIds s)
                (targetTimestamp job) pool None = Some (c', d)" using Some sel by simp
  have un: "msgId (message c') \<notin> reservedMessageIds s"
    using selectCandidate_origin[OF sc] by simp
  obtain r1 s1 where a: "attemptAssignment reserve s job c' TimestampMethod = (r1, s1)"
    by (cases "attemptAssignment reserve s job c' TimestampMethod")
  have cl1: "claims s1 = claims s @ [(msgId (message c'), jobId job, TimestampMethod)]"
    using attemptAssignment_claims[of reserve s job c' TimestampMethod] a un by auto
  show ?thesis
  proof (cases r1)
    case (Some e)
    then have "fallbackLoop reserve cfg s pool (job # jobs) = (Some e, s1)"
      using sc a by simp
    then show ?thesis using cl1 by simp
  next
    case None
    then have eq: "fallbackLoop reserve cfg s pool (job # jobs)
                    = fallbackLoop reserve cfg s1 (remove1 c' pool) jobs"
      using sc a by simp
    obtain new where "claims (snd (fallbackLoop reserve cfg s1 (remove1 c' pool) jobs))
                        = claims s1 @ new"
      using fallbackLoop_claims_grow[of reserve cfg s1 "remove1 c' pool" jobs] by blast
    then show ?thesis using eq cl1 by simp
  qed
qed

text \<open>
  C7, amended. Distances are measured from the reference time the code uses, \<open>sentAt\<close>
  unless it is 0 and \<open>jobCreatedAt\<close> then (not the later of the two). Every proposal of
  the fallback phase is for a candidate within the window of its job's reference time, so a
  candidate farther than the window is never selected; a candidate at exactly the window is
  eligible: alone, it is the one proposed, and in a batch it keeps the first job from going
  without a proposal.
\<close>
theorem fallback_window_boundary:
  "(\<exists>new. claims (snd (processFallbackMatches reserve cfg s videoMessages jobs)) = claims s @ new \<and>
      (\<forall>(messageId, jid, meth) \<in> set new.
         \<exists>job \<in> set jobs. \<exists>c \<in> set videoMessages.
           jid = jobId job \<and> msgId (message c) = messageId \<and>
           \<bar>dateMs c - (if sentAt job = 0 then jobCreatedAt job else sentAt job)\<bar>
             \<le> FALLBACK_WINDOW_MS cfg)) \<and>
   (\<not> hasMark (jobIdMark c) \<and> msgId (message c) \<notin> reservedMessageIds s \<and>
    \<bar>dateMs c - (if sentAt job = 0 then jobCreatedAt job else sentAt job)\<bar>
      = FALLBACK_WINDOW_MS cfg
    \<longrightarrow> processFallbackMatches reserve cfg s [c] [job]
          = attemptAssignment reserve s job c TimestampMethod \<and>
        claims (snd (processFallbackMatches reserve cfg s [c] [job]))
          = claims s @ [(msgId (message c), jobId job, TimestampMethod)]) \<and>
   (c \<in> set videoMessages \<and> \<not> hasMark (jobIdMark c) \<and>
    msgId (message c) \<notin> reservedMessageIds s \<and>
    \<bar>dateMs c - (if sentAt job = 0 then jobCreatedAt job else sentAt job)\<bar>
      = FALLBACK_WINDOW_MS cfg
    \<longrightarrow> (\<exists>messageId rest.
          claims (snd (processFallbackMatches reserve cfg s videoMessages (job # jobs)))
            = claims s @ (messageId, jobId job, TimestampMethod) # rest))"
proof (intro conjI impI)
  let ?F = "filter (\<lambda>info. \<not> hasMark (jobIdMark info)) videoMessages"
  from processFallbackMatches_proposals[of reserve cfg s videoMessages jobs]
  obtain new where n: "claims (snd (processFallbackMatches reserve cfg s videoMessages jobs))
      = claims s @ new" "proposalsOk cfg ?F jobs (reservedMessageIds s) new" by blast
  have "\<forall>(messageId, jid, meth) \<in> set new.
         \<exists>job \<in> set jobs. \<exists>c \<in> set videoMessages.
           jid = jobId job \<and> msgId (message c) = messageId \<and>
           \<bar>dateMs c - (if sentAt job = 0 then jobCreatedAt job else sentAt job)\<bar>
             \<le> FALLBACK_WINDOW_MS cfg"
  proof (clarify)
    fix messageId jid meth assume "(messageId, jid, meth) \<in> set new"
    from proposalsOk_within[OF n(2) this] obtain job' c' where
      w: "job' \<in> set jobs" "c' \<in> set ?F" "jid = jobId job'" "msgId (message c') = messageId"
         "\<bar>dateMs c' - targetTimestamp job'\<bar> \<le> FALLBACK_WINDOW_MS cfg" by blast
    have "\<bar>dateMs c' - (if sentAt job' = 0 then jobCreatedAt job' else sentAt job')\<bar>
            \<le> FALLBACK_WINDOW_MS cfg"
      using w(5) unfolding targetTimestamp_eq .
    moreover have "c' \<in> set videoMessages" using w(2) by simp
    ultimately show "\<exists>job \<in> set jobs. \<exists>c \<in> set videoMessages.
           jid = jobId job \<and> msgId (message c) = messageId \<and>
           \<bar>dateMs c - (if sentAt job = 0 then jobCreatedAt job else sentAt job)\<bar>
             \<le> FALLBACK_WINDOW_MS cfg"
      using w(1,3,4) by blast
  qed
  then show "\<exists>new. claims (snd (processFallbackMatches reserve cfg s videoMessages jobs))
      = claims s @ new \<and>
      (\<forall>(messageId, jid, meth) \<in> set new.
         \<exists>job \<in> set jobs. \<exists>c \<in> set videoMessages.
           jid = jobId job \<and> msgId (message c) = messageId \<and>
           \<bar>dateMs c - (if sentAt job = 0 then jobCreatedAt job else sentAt job)\<bar>
             \<le> FALLBACK_WINDOW_MS cfg)"
    using n(1) by blast
next
  assume a: "\<not> hasMark (jobIdMark c) \<and> msgId (message c) \<notin> reservedMessageIds s \<and>
    \<bar>dateMs c - (if sentAt job = 0 then jobCreatedAt job else sentAt job)\<bar>
      = FALLBACK_WINDOW_MS cfg"
  have tw: "\<bar>dateMs c - targetTimestamp job\<bar> = FALLBACK_WINDOW_MS cfg"
    unfolding targetTimestamp_eq using a by blast
  have un: "msgId (message c) \<notin> reservedMessageIds s" using a by blast
  have sc: "selectCandidate (FALLBACK_WINDOW_MS cfg) (reservedMessageIds s)
      (targetTimestamp job) [c] None = Some (c, FALLBACK_WINDOW_MS cfg)"
    using tw un by (simp add: Let_def)
  show eq: "processFallbackMatches reserve cfg s [c] [job]
          = attemptAssignment reserve s job c TimestampMethod"
    using a sc
    by (cases "attemptAssignment reserve s job c TimestampMethod")
      (auto simp: processFallbackMatches_def Let_def split: option.splits)
  show "claims (snd (processFallbackMatches reserve cfg s [c] [job]))
          = claims s @ [(msgId (message c), jobId job, TimestampMethod)]"
    unfolding eq
    using attemptAssignment_claims[of reserve s job c TimestampMethod] a by auto
next
  assume a: "c \<in> set videoMessages \<and> \<not> hasMark (jobIdMark c) \<and>
    msgId (message c) \<notin> reservedMessageIds s \<and>
    \<bar>dateMs c - (if sentAt job = 0 then jobCreatedAt job else sentAt job)\<bar>
      = FALLBACK_WINDOW_MS cfg"
  let ?F = "filter (\<lambda>info. \<not> hasMark (jobIdMark info)) videoMessages"
  have m: "c \<in> set ?F" using a by simp
  then have ne: "?F \<noteq> []" by (metis empty_iff list.set(1))
  have "\<bar>dateMs c - targetTimestamp job\<bar> = FALLBACK_WINDOW_MS cfg"
    unfolding targetTimestamp_eq using a by blast
  then have w: "\<bar>dateMs c - targetTimestamp job\<bar> \<le> FALLBACK_WINDOW_MS cfg" by simp
  have "processFallbackMatches reserve cfg s videoMessages (job # jobs)
          = fallbackLoop reserve cfg s ?F (job # jobs)"
    using ne by (simp add: processFallbackMatches_def Let_def)
  then show "\<exists>messageId rest.
          claims (snd (processFallbackMatches reserve cfg s videoMessages (job # jobs)))
            = claims s @ (messageId, jobId job, TimestampMethod) # rest"
    using fallbackLoop_first_proposal[OF m _ w, of s reserve jobs] a by simp
qed

theorem fallback_window_boundary_counterexample:
  "\<bar>dateMs (messageInfo 0 (videoMessage 1 None 1124000))
      - max (sentAt (sampleJob (ascii ''c1'') 1004000 1000000 3 0))
            (jobCreatedAt (sampleJob (ascii ''c1'') 1004000 1000000 3 0))\<bar>
     = FALLBACK_WINDOW_MS defaultConfig \<and>
   processFallbackMatches firstWriterWins defaultConfig
       (sampleState [sampleJob (ascii ''c1'') 1004000 1000000 3 0] {})
       [messageInfo 0 (videoMessage 1 None 1124000)]
       [sampleJob (ascii ''c1'') 1004000 1000000 3 0]
     = (None, sampleState [sampleJob (ascii ''c1'') 1004000 1000000 3 0] {}) \<and>
   \<bar>dateMs (messageInfo 0 (videoMessage 2 None 880000))
      - max (sentAt (sampleJob (ascii ''c1'') 1004000 1000000 3 0))
            (jobCreatedAt (sampleJob (ascii ''c1'') 1004000 1000000 3 0))\<bar>
     > FALLBACK_WINDOW_MS defaultConfig \<and>
   processFallbackMatches firstWriterWins defaultConfig
       (sampleState [sampleJob (ascii ''c1'') 1004000 1000000 3 0] {})
       [messageInfo 0 (videoMessage 2 None 880000)]
       [sampleJob (ascii ''c1'') 1004000 1000000 3 0]
     = (None, (sampleState [] {2})
          \<lparr> reservedMessageIds := {2}, promises := 1,
            claims := [(2, ascii ''c1'', TimestampMethod)],
            settled := [(0, Resolved (videoMessage 2 None 880000) TimestampMethod 0)] \<rparr>)"
  by (simp add: run_defs)

theorem fallback_window_boundary_witness:
  "\<not> hasMark (jobIdMark (messageInfo 0 (videoMessage 4 None 121000))) \<and>
   msgId (message (messageInfo 0 (videoMessage 4 None 121000)))
      \<notin> reservedMessageIds (sampleState [sampleJob (ascii ''c1'') 0 1000 3 0] {}) \<and>
   \<bar>dateMs (messageInfo 0 (videoMessage 4 None 121000))
       - (if sentAt (sampleJob (ascii ''c1'') 0 1000 3 0) = 0
          then jobCreatedAt (sampleJob (ascii ''c1'') 0 1000 3 0)
          else sentAt (sampleJob (ascii ''c1'') 0 1000 3 0))\<bar> = FALLBACK_WINDOW_MS defaultConfig \<and>
   claims (snd (processFallbackMatches firstWriterWins defaultConfig
       (sampleState [sampleJob (ascii ''c1'') 0 1000 3 0] {})
       [messageInfo 0 (videoMessage 4 None 121000)] [sampleJob (ascii ''c1'') 0 1000 3 0]))
     = [(4, ascii ''c1'', TimestampMethod)] \<and>
   claims (snd (processFallbackMatches firstWriterWins defaultConfig
       (sampleState [sampleJob (ascii ''c1'') 0 1000 3 0] {})
       [messageInfo 0 (videoMessage 4 None 121001)] [sampleJob (ascii ''c1'') 0 1000 3 0]))
     = []"
  using fallback_window_boundary[of firstWriterWins defaultConfig
      "sampleState [sampleJob (ascii ''c1'') 0 1000 3 0] {}"
      "[messageInfo 0 (videoMessage 4 None 121000)]" "[sampleJob (ascii ''c1'') 0 1000 3 0]"
      "messageInfo 0 (videoMessage 4 None 121000)" "sampleJob (ascii ''c1'') 0 1000 3 0"]
  by (simp add: run_defs)

text \<open>
  C2, amended. The counter is incremented before it is compared, and only in a cycle that
  reaches the fallback phase. In a cycle whose fetch succeeds and whose marker phase ends
  without an exception, a job still pending after the marker phase has the poll count it had
  at the start of the cycle; it is handed to the fallback phase exactly when that count is
  at least the threshold minus one; below that, no timestamp proposal is made for it in the
  cycle; and if it is still in the registry at the end of the cycle, its count is one more.
  So a job that starts such a cycle at threshold - 2 is not eligible in it and, surviving
  it, is eligible in the next cycle that reaches the fallback phase.
\<close>
theorem fallback_threshold_boundary:
  assumes wk: "wellKeyed s" and cl: "currentClient s" and fe: "fetched inp = Inr messages"
    and pa: "matchMessagesByJobId reserve
               (s\<lparr>totalMessagesScanned := totalMessagesScanned s + length messages\<rparr>)
               (filterVideoMessages (scanClock inp) messages) = (None, s2)"
    and mem: "map_of (pendingJobs s2) k = Some job"
  shows "map_of (pendingJobs s) k = Some job \<and>
         pollOnce reserve cfg s inp =
           (case processFallbackMatches reserve cfg (snd (collectFallbackReadyJobs cfg s2))
                   (filterVideoMessages (scanClock inp) messages)
                   (fst (collectFallbackReadyJobs cfg s2)) of
              (Some e, s4) \<Rightarrow> (Some e, s4)
            | (None, s4) \<Rightarrow> (None, checkPendingTimeouts (sweepClock inp) s4)) \<and>
         (job\<lparr>pollCount := pollCount job + 1\<rparr> \<in> set (fst (collectFallbackReadyJobs cfg s2))
            \<longleftrightarrow> FALLBACK_POLLS_THRESHOLD cfg - 1 \<le> pollCount job) \<and>
         (pollCount job < FALLBACK_POLLS_THRESHOLD cfg - 1 \<longrightarrow>
            (\<forall>messageId. (messageId, k, TimestampMethod)
               \<notin> set (drop (length (claims s)) (claims (snd (pollOnce reserve cfg s inp)))))) \<and>
         (\<forall>job'. map_of (pendingJobs (snd (pollOnce reserve cfg s inp))) k = Some job'
            \<longrightarrow> job' = job\<lparr>pollCount := pollCount job + 1\<rparr>)"
proof -
  let ?s1 = "s\<lparr>totalMessagesScanned := totalMessagesScanned s + length messages\<rparr>"
  let ?vms = "filterVideoMessages (scanClock inp) messages"
  let ?bump = "job\<lparr>pollCount := pollCount job + 1\<rparr>"
  obtain ready s3 where c: "collectFallbackReadyJobs cfg s2 = (ready, s3)"
    by (cases "collectFallbackReadyJobs cfg s2")
  obtain r4 s4 where f: "processFallbackMatches reserve cfg s3 ?vms ready = (r4, s4)"
    by (cases "processFallbackMatches reserve cfg s3 ?vms ready")
  have wk1: "wellKeyed ?s1" using wk by (simp add: wellKeyed_def)
  have wk2: "wellKeyed s2" using wellKeyed_match[OF wk1, of reserve ?vms] pa by simp
  have wk3: "wellKeyed s3" using collect_wellKeyed[OF wk2, of cfg] c by simp
  have sub: "set (pendingJobs s2) \<subseteq> set (pendingJobs s)"
    using matchMessagesByJobId_pending_subset[of reserve ?s1 ?vms] pa by simp
  have m2: "(k, job) \<in> set (pendingJobs s2)" using mem by (rule map_of_SomeD)
  have 1: "map_of (pendingJobs s) k = Some job"
    using wellKeyed_map_of[OF wk] m2 sub by blast
  have 2: "pollOnce reserve cfg s inp =
           (case processFallbackMatches reserve cfg (snd (collectFallbackReadyJobs cfg s2))
                   ?vms (fst (collectFallbackReadyJobs cfg s2)) of
              (Some e, s4) \<Rightarrow> (Some e, s4)
            | (None, s4) \<Rightarrow> (None, checkPendingTimeouts (sweepClock inp) s4))"
    using cl fe pa c by (simp add: pollOnce_def Let_def)
  have 3: "(?bump \<in> set (fst (collectFallbackReadyJobs cfg s2)))
             = (FALLBACK_POLLS_THRESHOLD cfg - 1 \<le> pollCount job)"
  proof
    assume "?bump \<in> set (fst (collectFallbackReadyJobs cfg s2))"
    then show "FALLBACK_POLLS_THRESHOLD cfg - 1 \<le> pollCount job"
      by (auto simp: collectFallbackReadyJobs_def Let_def)
  next
    assume "FALLBACK_POLLS_THRESHOLD cfg - 1 \<le> pollCount job"
    then show "?bump \<in> set (fst (collectFallbackReadyJobs cfg s2))"
      using m2 by (force simp: collectFallbackReadyJobs_def Let_def image_iff)
  qed
  have 4: "pollCount job < FALLBACK_POLLS_THRESHOLD cfg - 1 \<longrightarrow>
            (\<forall>messageId. (messageId, k, TimestampMethod)
               \<notin> set (drop (length (claims s)) (claims (snd (pollOnce reserve cfg s inp)))))"
  proof (intro impI allI notI)
    fix messageId
    assume low: "pollCount job < FALLBACK_POLLS_THRESHOLD cfg - 1"
      and x: "(messageId, k, TimestampMethod)
               \<in> set (drop (length (claims s)) (claims (snd (pollOnce reserve cfg s inp))))"
    from cycle_proposals[OF wk fe, of reserve cfg] obtain rdy newA newB where
      p: "claims (snd (pollOnce reserve cfg s inp)) = claims s @ newA @ newB"
         "\<forall>x \<in> set newA. snd (snd x) = JobIdMethod"
         "proposalsOk cfg (filter (\<lambda>info. \<not> hasMark (jobIdMark info)) ?vms) rdy
            (reservedMessageIds s \<union> fst ` set newA) newB"
         "\<forall>job' \<in> set rdy. \<exists>job. map_of (pendingJobs s) (jobId job') = Some job \<and>
               job' = job\<lparr>pollCount := pollCount job + 1\<rparr> \<and>
               FALLBACK_POLLS_THRESHOLD cfg \<le> pollCount job + 1"
      by (elim exE conjE)
    have "(messageId, k, TimestampMethod) \<in> set newA \<union> set newB" using x p(1) by simp
    moreover have "(messageId, k, TimestampMethod) \<notin> set newA" using p(2) by force
    ultimately have "(messageId, k, TimestampMethod) \<in> set newB" by blast
    from proposalsOk_member[OF p(3) this] obtain job' where
      j: "job' \<in> set rdy" "k = jobId job'" by blast
    from p(4) j(1) obtain J where
      J: "map_of (pendingJobs s) (jobId job') = Some J"
         "FALLBACK_POLLS_THRESHOLD cfg \<le> pollCount J + 1" by blast
    have "J = job" using J(1) j(2) 1 by simp
    then show False using J(2) low by simp
  qed
  have fin: "set (pendingJobs (snd (pollOnce reserve cfg s inp))) \<subseteq> set (pendingJobs s3)"
  proof -
    have s4: "set (pendingJobs s4) \<subseteq> set (pendingJobs s3)"
      using processFallbackMatches_pending_subset[of reserve cfg s3 ?vms ready] f by simp
    show ?thesis
    proof (cases r4)
      case (Some e)
      then show ?thesis using 2 c f s4 by simp
    next
      case None
      then have "snd (pollOnce reserve cfg s inp) = checkPendingTimeouts (sweepClock inp) s4"
        using 2 c f by simp
      then show ?thesis
        using timeoutLoop_pending_subset[of "sweepClock inp" s4 "map snd (pendingJobs s4)"] s4
        by (auto simp: checkPendingTimeouts_def)
    qed
  qed
  have l3: "map_of (pendingJobs s3) k = Some ?bump"
    using collect_lookup[of cfg s2 k] c mem by simp
  have 5: "\<forall>job'. map_of (pendingJobs (snd (pollOnce reserve cfg s inp))) k = Some job'
            \<longrightarrow> job' = ?bump"
  proof (intro allI impI)
    fix job' assume "map_of (pendingJobs (snd (pollOnce reserve cfg s inp))) k = Some job'"
    then have "(k, job') \<in> set (pendingJobs s3)" using map_of_SomeD fin by fast
    from wellKeyed_map_of[OF wk3 this] l3 show "job' = ?bump" by simp
  qed
  from 1 2 3 4 5 show ?thesis by blast
qed

theorem fallback_threshold_counterexample:
  "pollCount (sampleJob (ascii ''c1'') 0 1000 2 0) = FALLBACK_POLLS_THRESHOLD defaultConfig - 1 \<and>
   pendingJobs (sampleState [sampleJob (ascii ''c1'') 0 1000 2 0] {}) =
     [(ascii ''c1'', sampleJob (ascii ''c1'') 0 1000 2 0)] \<and>
   pollOnce firstWriterWins defaultConfig (sampleState [sampleJob (ascii ''c1'') 0 1000 2 0] {})
       (sampleCycle [videoMessage 5 None 91000] 100000) =
     (None, (sampleState [] {5})
        \<lparr> reservedMessageIds := {5}, totalMessagesScanned := 1, promises := 1,
          claims := [(5, ascii ''c1'', TimestampMethod)],
          settled := [(0, Resolved (videoMessage 5 None 91000) TimestampMethod 1)] \<rparr>)"
  by (simp add: run_defs)

theorem fallback_threshold_witness:
  "wellKeyed (sampleState [sampleJob (ascii ''c1'') 0 1000 1 0] {}) \<and>
   currentClient (sampleState [sampleJob (ascii ''c1'') 0 1000 1 0] {}) \<and>
   matchMessagesByJobId firstWriterWins
       ((sampleState [sampleJob (ascii ''c1'') 0 1000 1 0] {})\<lparr>totalMessagesScanned := 1\<rparr>)
       (filterVideoMessages 100000 [videoMessage 5 None 91000])
     = (None, (sampleState [sampleJob (ascii ''c1'') 0 1000 1 0] {})\<lparr>totalMessagesScanned := 1\<rparr>) \<and>
   pollCount (sampleJob (ascii ''c1'') 0 1000 1 0) = FALLBACK_POLLS_THRESHOLD defaultConfig - 2 \<and>
   pollOnce firstWriterWins defaultConfig (sampleState [sampleJob (ascii ''c1'') 0 1000 1 0] {})
       (sampleCycle [videoMessage 5 None 91000] 100000)
     = (None, (sampleState [sampleJob (ascii ''c1'') 0 1000 2 0] {})\<lparr>totalMessagesScanned := 1\<rparr>) \<and>
   settled (snd (pollOnce firstWriterWins defaultConfig
       ((sampleState [sampleJob (ascii ''c1'') 0 1000 2 0] {})\<lparr>totalMessagesScanned := 1\<rparr>)
       (sampleCycle [videoMessage 5 None 91000] 107000)))
     = [(0, Resolved (videoMessage 5 None 91000) TimestampMethod 2)]"
  using fallback_threshold_boundary[of "sampleState [sampleJob (ascii ''c1'') 0 1000 1 0] {}"
      "sampleCycle [videoMessage 5 None 91000] 100000" "[videoMessage 5 None 91000]"
      firstWriterWins
      "(sampleState [sampleJob (ascii ''c1'') 0 1000 1 0] {})\<lparr>totalMessagesScanned := 1\<rparr>"
      "ascii ''c1''" "sampleJob (ascii ''c1'') 0 1000 1 0" defaultConfig]
  by (simp add: run_defs wellKeyed_def)

end
